theory Spec2Isabelle
  imports Main "HOL-Library.Char_ord" "HOL-Library.List_Lexorder"
begin

section \<open>The crossword filler \<^verbatim>\<open>xword-fill.c\<close>: a shallow embedding\<close>

text \<open>
  Conventions. A grid is the C array \<^verbatim>\<open>const char *grid\<close> in row-major order, here a
  \<open>string\<close> read with \<open>grid ! (j * w + i)\<close>; the C \<^verbatim>\<open>int\<close> indices \<open>w\<close>, \<open>h\<close>, \<open>i\<close>, \<open>j\<close>,
  \<open>k\<close> never go negative in the source and are natural numbers; return codes and the
  print counters are integers. An \<^verbatim>\<open>assert\<close> that fails aborts the process: functions
  that can reach one return an \<open>option\<close>, and \<open>None\<close> is the abort.
\<close>

subsection \<open>The C library in the "C" locale\<close>

definition c_tolower :: "char \<Rightarrow> char" where
  "c_tolower c =
     (case map_of (zip ''ABCDEFGHIJKLMNOPQRSTUVWXYZ'' ''abcdefghijklmnopqrstuvwxyz'') c of
        Some l \<Rightarrow> l
      | None \<Rightarrow> c)"

definition c_isalpha :: "char \<Rightarrow> bool" where
  "c_isalpha c =
     (c \<in> set ''ABCDEFGHIJKLMNOPQRSTUVWXYZabcdefghijklmnopqrstuvwxyz'')"

text \<open>
  \<^verbatim>\<open>strchr(s, c) != NULL\<close>: the terminating NUL of \<open>s\<close> is part of the string that
  \<^verbatim>\<open>strchr\<close> searches, so the NUL character is always found.
\<close>

definition strchr :: "string \<Rightarrow> char \<Rightarrow> bool" where
  "strchr s c = (c \<in> set s \<or> c = CHR 0x00)"

subsection \<open>The pattern matcher\<close>

text \<open>\<^verbatim>\<open>int matches(int a, int b)\<close>: 0 is no match, 1 a loose match, 2 an exact match.\<close>

definition matches :: "char \<Rightarrow> char \<Rightarrow> int" where
  "matches a b =
     (if a = CHR ''#'' \<or> b = CHR ''#'' then 0
      else if a = CHR ''.'' \<or> b = CHR ''.'' then 1
      else if strchr ''aeiouy'' a \<and> b = CHR ''0'' then 1
      else if strchr ''aeiouy'' b \<and> a = CHR ''0'' then 1
      else if strchr ''bcdfghjklmnpqrstvwxyz'' a \<and> b = CHR ''1'' then 1
      else if strchr ''bcdfghjklmnpqrstvwxyz'' b \<and> a = CHR ''1'' then 1
      else if c_tolower a = c_tolower b then 2 else 0)"

text \<open>
  The \<^verbatim>\<open>for (k=0; k < wlen; ++k)\<close> loop of \<^verbatim>\<open>entry_fits_across\<close>, over the indices
  still to visit; the flag is \<^verbatim>\<open>exact_match\<close>.
\<close>

fun entry_fits_across_loop ::
  "string \<Rightarrow> nat \<Rightarrow> nat \<Rightarrow> nat \<Rightarrow> string \<Rightarrow> nat list \<Rightarrow> bool \<Rightarrow> int" where
  "entry_fits_across_loop grid w i j word [] exact_match = (if exact_match then 2 else 1)"
| "entry_fits_across_loop grid w i j word (k # ks) exact_match =
     (let rc = matches (grid ! (j * w + (i + k))) (word ! k) in
      if rc = 0 then 0
      else if rc = 1 then entry_fits_across_loop grid w i j word ks False
      else entry_fits_across_loop grid w i j word ks exact_match)"

definition entry_fits_across ::
  "string \<Rightarrow> nat \<Rightarrow> nat \<Rightarrow> nat \<Rightarrow> nat \<Rightarrow> string \<Rightarrow> nat \<Rightarrow> int" where
  "entry_fits_across grid w h i j word wlen =
     (if i + wlen > w then 0
      else if i > 0 \<and> grid ! (j * w + (i - 1)) \<noteq> CHR ''#'' then 0
      else if i + wlen < w \<and> grid ! (j * w + (i + wlen)) \<noteq> CHR ''#'' then 0
      else entry_fits_across_loop grid w i j word [0..<wlen] True)"

fun entry_fits_down_loop ::
  "string \<Rightarrow> nat \<Rightarrow> nat \<Rightarrow> nat \<Rightarrow> string \<Rightarrow> nat list \<Rightarrow> bool \<Rightarrow> int" where
  "entry_fits_down_loop grid w i j word [] exact_match = (if exact_match then 2 else 1)"
| "entry_fits_down_loop grid w i j word (k # ks) exact_match =
     (let rc = matches (grid ! ((j + k) * w + i)) (word ! k) in
      if rc = 0 then 0
      else if rc = 1 then entry_fits_down_loop grid w i j word ks False
      else entry_fits_down_loop grid w i j word ks exact_match)"

definition entry_fits_down ::
  "string \<Rightarrow> nat \<Rightarrow> nat \<Rightarrow> nat \<Rightarrow> nat \<Rightarrow> string \<Rightarrow> nat \<Rightarrow> int" where
  "entry_fits_down grid w h i j word wlen =
     (if j + wlen > h then 0
      else if j > 0 \<and> grid ! ((j - 1) * w + i) \<noteq> CHR ''#'' then 0
      else if j + wlen < h \<and> grid ! ((j + wlen) * w + i) \<noteq> CHR ''#'' then 0
      else entry_fits_down_loop grid w i j word [0..<wlen] True)"

subsection \<open>Vocabulary of the specification\<close>

text \<open>The vowels of the matcher, the 21 letters its consonant test accepts, and the letters.\<close>

definition vowels :: "char set" where
  "vowels = {CHR ''a'', CHR ''e'', CHR ''i'', CHR ''o'', CHR ''u'', CHR ''y''}"

definition consonants_y :: "char set" where
  "consonants_y = {CHR ''b'', CHR ''c'', CHR ''d'', CHR ''f'', CHR ''g'', CHR ''h'', CHR ''j'',
     CHR ''k'', CHR ''l'', CHR ''m'', CHR ''n'', CHR ''p'', CHR ''q'', CHR ''r'', CHR ''s'',
     CHR ''t'', CHR ''v'', CHR ''w'', CHR ''x'', CHR ''y'', CHR ''z''}"

text \<open>The consonants as the specification defines them: \<open>b..z\<close> without the vowels.\<close>

definition consonants :: "char set" where
  "consonants = consonants_y - vowels"

datatype orientation = Across | Down

text \<open>
  The grid position of the \<open>k\<close>-th cell of a run that starts at column \<open>i\<close>, row \<open>j\<close>, as
  integer coordinates (column, row), so that the cell before the first one exists as a
  position.
\<close>

fun run_pos :: "orientation \<Rightarrow> nat \<Rightarrow> nat \<Rightarrow> int \<Rightarrow> int \<times> int" where
  "run_pos Across i j k = (int i + k, int j)"
| "run_pos Down i j k = (int i, int j + k)"

definition on_grid :: "nat \<Rightarrow> nat \<Rightarrow> int \<times> int \<Rightarrow> bool" where
  "on_grid w h p = (0 \<le> fst p \<and> fst p < int w \<and> 0 \<le> snd p \<and> snd p < int h)"

definition cell_at :: "string \<Rightarrow> nat \<Rightarrow> int \<times> int \<Rightarrow> char" where
  "cell_at grid w p = grid ! nat (snd p * int w + fst p)"

definition off_grid_or_black :: "string \<Rightarrow> nat \<Rightarrow> nat \<Rightarrow> int \<times> int \<Rightarrow> bool" where
  "off_grid_or_black grid w h p = (\<not> on_grid w h p \<or> cell_at grid w p = CHR ''#'')"

definition entry_fits ::
  "orientation \<Rightarrow> string \<Rightarrow> nat \<Rightarrow> nat \<Rightarrow> nat \<Rightarrow> nat \<Rightarrow> string \<Rightarrow> nat \<Rightarrow> int" where
  "entry_fits d grid w h i j word wlen =
     (case d of Across \<Rightarrow> entry_fits_across grid w h i j word wlen
              | Down \<Rightarrow> entry_fits_down grid w h i j word wlen)"

text \<open>
  The single-cell table of the specification, written from its words: \<open>0\<close> pairs with a
  vowel, \<open>1\<close> with a consonant (\<open>b..z\<close> without the vowels), two letters match exactly
  when they are the same letter up to case, and everything else is no match.
\<close>

definition spec_matches :: "char \<Rightarrow> char \<Rightarrow> int" where
  "spec_matches a b =
     (if a = CHR ''#'' \<or> b = CHR ''#'' then 0
      else if a = CHR ''.'' \<or> b = CHR ''.'' then 1
      else if (a = CHR ''0'' \<and> b \<in> vowels) \<or> (b = CHR ''0'' \<and> a \<in> vowels) then 1
      else if (a = CHR ''1'' \<and> b \<in> consonants) \<or> (b = CHR ''1'' \<and> a \<in> consonants) then 1
      else if c_isalpha a \<and> c_isalpha b \<and> c_tolower a = c_tolower b then 2
      else 0)"

text \<open>The three conditions of an admissible placement, for a run of \<open>wlen\<close> cells.\<close>

definition run_within :: "orientation \<Rightarrow> nat \<Rightarrow> nat \<Rightarrow> nat \<Rightarrow> nat \<Rightarrow> nat \<Rightarrow> bool" where
  "run_within d w h i j wlen = (\<forall>k<wlen. on_grid w h (run_pos d i j (int k)))"

definition run_bounded ::
  "orientation \<Rightarrow> string \<Rightarrow> nat \<Rightarrow> nat \<Rightarrow> nat \<Rightarrow> nat \<Rightarrow> nat \<Rightarrow> bool" where
  "run_bounded d grid w h i j wlen =
     (off_grid_or_black grid w h (run_pos d i j (- 1)) \<and>
      off_grid_or_black grid w h (run_pos d i j (int wlen)))"

definition cell_match ::
  "orientation \<Rightarrow> string \<Rightarrow> nat \<Rightarrow> nat \<Rightarrow> nat \<Rightarrow> string \<Rightarrow> nat \<Rightarrow> int" where
  "cell_match d grid w i j word k =
     matches (cell_at grid w (run_pos d i j (int k))) (word ! k)"

subsection \<open>Options, the grid and the slice table\<close>

text \<open>
  The file-scope option variables of \<^verbatim>\<open>xword-fill.c\<close>, set once by \<^verbatim>\<open>main\<close> from the
  command line and read-only afterwards, are passed as a record.
\<close>

record flags =
  NumSolutions :: int
  RejectDuplicateWords :: bool
  UseNaiveMethod :: bool
  PrintEveryNthSolution :: int

text \<open>
  \<^verbatim>\<open>struct xword_info\<close>. Its \<^verbatim>\<open>mat\<close> and \<^verbatim>\<open>out\<close> fields are results here: the functions
  that add rows return them, and the callback returns the text it prints.
\<close>

record xword_info =
  info_w :: nat
  info_h :: nat
  info_grid :: string

definition is_fixed_value :: "char \<Rightarrow> bool option" where
  "is_fixed_value ch =
     (if ch = CHR ''#'' then Some True
      else if c_isalpha ch then Some True
      else if ch = CHR ''.'' \<or> ch = CHR ''0'' \<or> ch = CHR ''1'' then Some False
      else None)"

text \<open>\<^verbatim>\<open>ch2idx\<close> and \<^verbatim>\<open>idx2ch\<close>; a character that is no letter counts as \<open>x\<close>.\<close>

definition ch2idx :: "char \<Rightarrow> nat" where
  "ch2idx ch =
     (if c_isalpha ch then of_char (c_tolower ch) - of_char CHR ''a''
      else of_char CHR ''x'' - of_char CHR ''a'')"

definition idx2ch :: "nat \<Rightarrow> char" where
  "idx2ch idx = char_of (idx + of_char CHR ''a'')"

fun number_of_slices_loop :: "string \<Rightarrow> nat list \<Rightarrow> nat \<Rightarrow> nat option" where
  "number_of_slices_loop grid [] unknown_cells = Some unknown_cells"
| "number_of_slices_loop grid (i # is) unknown_cells =
     (case is_fixed_value (grid ! i) of
        None \<Rightarrow> None
      | Some True \<Rightarrow> number_of_slices_loop grid is unknown_cells
      | Some False \<Rightarrow> number_of_slices_loop grid is (unknown_cells + 1))"

definition NUMBER_OF_SLICES :: "flags \<Rightarrow> xword_info \<Rightarrow> nat option" where
  "NUMBER_OF_SLICES cfg info =
     (let n = info_w info * info_h info in
      if UseNaiveMethod cfg then Some n
      else number_of_slices_loop (info_grid info) [0..<n] 0)"

text \<open>The loop of \<^verbatim>\<open>SLICE_TO_CELL\<close>; running off its end is \<^verbatim>\<open>assert(0)\<close>.\<close>

fun slice_to_cell_loop :: "string \<Rightarrow> nat \<Rightarrow> nat list \<Rightarrow> nat \<Rightarrow> nat option" where
  "slice_to_cell_loop grid slice [] unknown_cells = None"
| "slice_to_cell_loop grid slice (i # is) unknown_cells =
     (case is_fixed_value (grid ! i) of
        None \<Rightarrow> None
      | Some True \<Rightarrow> slice_to_cell_loop grid slice is unknown_cells
      | Some False \<Rightarrow>
          if unknown_cells = slice then Some i
          else slice_to_cell_loop grid slice is (unknown_cells + 1))"

definition SLICE_TO_CELL :: "flags \<Rightarrow> nat \<Rightarrow> xword_info \<Rightarrow> nat option" where
  "SLICE_TO_CELL cfg slice info =
     (let n = info_w info * info_h info in
      if \<not> slice < n then None
      else if UseNaiveMethod cfg then Some slice
      else slice_to_cell_loop (info_grid info) slice [0..<n] 0)"

fun cell_to_slice_loop :: "string \<Rightarrow> nat \<Rightarrow> nat list \<Rightarrow> nat \<Rightarrow> nat option" where
  "cell_to_slice_loop grid cell [] unknown_cells = None"
| "cell_to_slice_loop grid cell (i # is) unknown_cells =
     (if i = cell then Some unknown_cells
      else case is_fixed_value (grid ! i) of
             None \<Rightarrow> None
           | Some True \<Rightarrow> cell_to_slice_loop grid cell is unknown_cells
           | Some False \<Rightarrow> cell_to_slice_loop grid cell is (unknown_cells + 1))"

definition CELL_TO_SLICE :: "flags \<Rightarrow> nat \<Rightarrow> xword_info \<Rightarrow> nat option" where
  "CELL_TO_SLICE cfg cell info =
     (let n = info_w info * info_h info in
      if UseNaiveMethod cfg then Some cell
      else if \<not> cell < n then None
      else case is_fixed_value (info_grid info ! cell) of
             None \<Rightarrow> None
           | Some True \<Rightarrow> None
           | Some False \<Rightarrow> cell_to_slice_loop (info_grid info) cell [0..<n] 0)"

subsection \<open>Rows of the exact-cover matrix\<close>

text \<open>
  \<^verbatim>\<open>add_row_across\<close> and \<^verbatim>\<open>add_row_down\<close> fill the array \<^verbatim>\<open>constraint\<close> and hand it, with
  its length \<^verbatim>\<open>idx\<close>, to \<^verbatim>\<open>dance_addrow\<close>; the loops of the model return the entries
  written so far as a list. The array is declared with \<^verbatim>\<open>MAX_WORDLEN*27\<close> entries, 27 for
  each of 15 cells. A run with more cells to write makes the C code store past the end
  of the array, which is undefined behaviour: the model has no row for it and returns
  \<open>None\<close>, as it does for a failed assertion.
\<close>

definition MAX_WORDLEN :: nat where
  "MAX_WORDLEN = 15"

fun add_row_across_loop ::
  "flags \<Rightarrow> xword_info \<Rightarrow> nat \<Rightarrow> nat \<Rightarrow> string \<Rightarrow> nat list \<Rightarrow> nat list \<Rightarrow> nat list option" where
  "add_row_across_loop cfg info i j word [] constraint = Some constraint"
| "add_row_across_loop cfg info i j word (k # ks) constraint =
     (let cell = j * info_w info + (i + k) in
      case (if UseNaiveMethod cfg then Some False else is_fixed_value (info_grid info ! cell)) of
        None \<Rightarrow> None
      | Some True \<Rightarrow> add_row_across_loop cfg info i j word ks constraint
      | Some False \<Rightarrow>
          (case CELL_TO_SLICE cfg cell info of
             None \<Rightarrow> None
           | Some s \<Rightarrow>
               let slice = 27 * 2 * s;
                   relevant_index = ch2idx (word ! k)
               in add_row_across_loop cfg info i j word ks
                    (constraint
                       @ map (\<lambda>m. slice + 2 * m + (if relevant_index \<noteq> m then 1 else 0)) [0..<26]
                       @ [slice + 2 * 26 + 0])))"

definition add_row_across ::
  "flags \<Rightarrow> xword_info \<Rightarrow> nat \<Rightarrow> nat \<Rightarrow> string \<Rightarrow> nat \<Rightarrow> nat list option" where
  "add_row_across cfg info i j word wlen =
     (case add_row_across_loop cfg info i j word [0..<wlen] [] of
        None \<Rightarrow> None
      | Some constraint \<Rightarrow>
          if \<not> length constraint \<le> MAX_WORDLEN * 27 then None
          else if UseNaiveMethod cfg \<and> length constraint \<noteq> wlen * 27 then None
          else Some constraint)"

fun add_row_down_loop ::
  "flags \<Rightarrow> xword_info \<Rightarrow> nat \<Rightarrow> nat \<Rightarrow> string \<Rightarrow> nat list \<Rightarrow> nat list \<Rightarrow> nat list option" where
  "add_row_down_loop cfg info i j word [] constraint = Some constraint"
| "add_row_down_loop cfg info i j word (k # ks) constraint =
     (let cell = (j + k) * info_w info + i in
      case (if UseNaiveMethod cfg then Some False else is_fixed_value (info_grid info ! cell)) of
        None \<Rightarrow> None
      | Some True \<Rightarrow> add_row_down_loop cfg info i j word ks constraint
      | Some False \<Rightarrow>
          (case CELL_TO_SLICE cfg cell info of
             None \<Rightarrow> None
           | Some s \<Rightarrow>
               let slice = 27 * 2 * s;
                   relevant_index = ch2idx (word ! k)
               in add_row_down_loop cfg info i j word ks
                    (constraint
                       @ map (\<lambda>m. slice + 2 * m + (if relevant_index = m then 1 else 0)) [0..<26]
                       @ [slice + 2 * 26 + 1])))"

definition add_row_down ::
  "flags \<Rightarrow> xword_info \<Rightarrow> nat \<Rightarrow> nat \<Rightarrow> string \<Rightarrow> nat \<Rightarrow> nat list option" where
  "add_row_down cfg info i j word wlen =
     (case add_row_down_loop cfg info i j word [0..<wlen] [] of
        None \<Rightarrow> None
      | Some constraint \<Rightarrow>
          if \<not> length constraint \<le> MAX_WORDLEN * 27 then None
          else if UseNaiveMethod cfg \<and> length constraint \<noteq> wlen * 27 then None
          else Some constraint)"

subsection \<open>Vocabulary for the rows\<close>

text \<open>
  Open cells, the grid alphabet, and the slice of a cell: the cell itself in naive mode,
  the number of open cells before it otherwise. \<open>across_columns s i\<close> and
  \<open>down_columns s i\<close> are the columns the specification gives a placement in slice \<open>s\<close>
  for letter index \<open>i\<close>; \<open>across_block\<close> and \<open>down_block\<close> are the same columns in the
  order the code writes them.
\<close>

definition is_open :: "char \<Rightarrow> bool" where
  "is_open c = (c = CHR ''.'' \<or> c = CHR ''0'' \<or> c = CHR ''1'')"

definition legal_cell :: "char \<Rightarrow> bool" where
  "legal_cell c = (c = CHR ''#'' \<or> c_isalpha c \<or> is_open c)"

definition valid_grid :: "string \<Rightarrow> nat \<Rightarrow> nat \<Rightarrow> bool" where
  "valid_grid grid w h = (length grid = w * h \<and> list_all legal_cell grid)"

definition slice_index :: "flags \<Rightarrow> string \<Rightarrow> nat \<Rightarrow> nat" where
  "slice_index cfg grid cell =
     (if UseNaiveMethod cfg then cell
      else length (filter (\<lambda>q. is_open (grid ! q)) [0..<cell]))"

text \<open>
  The letter index of a word character, written from the alphabet: the position of the
  lower-cased character among \<open>a\<close> to \<open>z\<close>; the code treats a character that is no
  letter as an \<open>x\<close>.
\<close>

definition alphabet :: string where
  "alphabet = ''abcdefghijklmnopqrstuvwxyz''"

definition letter_index :: "char \<Rightarrow> nat" where
  "letter_index c =
     (if c_isalpha c then length (takeWhile (\<lambda>l. l \<noteq> c_tolower c) alphabet)
      else length (takeWhile (\<lambda>l. l \<noteq> CHR ''x'') alphabet))"

definition across_columns :: "nat \<Rightarrow> nat \<Rightarrow> nat set" where
  "across_columns s i =
     {54 * s + 2 * m + 1 | m. m < 26 \<and> m \<noteq> i} \<union> {54 * s + 2 * i, 54 * s + 52}"

definition down_columns :: "nat \<Rightarrow> nat \<Rightarrow> nat set" where
  "down_columns s i =
     {54 * s + 2 * m | m. m < 26 \<and> m \<noteq> i} \<union> {54 * s + 2 * i + 1, 54 * s + 53}"

definition across_block :: "nat \<Rightarrow> nat \<Rightarrow> nat list" where
  "across_block s i =
     map (\<lambda>m. 27 * 2 * s + 2 * m + (if i \<noteq> m then 1 else 0)) [0..<26] @ [27 * 2 * s + 2 * 26 + 0]"

definition down_block :: "nat \<Rightarrow> nat \<Rightarrow> nat list" where
  "down_block s i =
     map (\<lambda>m. 27 * 2 * s + 2 * m + (if i = m then 1 else 0)) [0..<26] @ [27 * 2 * s + 2 * 26 + 1]"

text \<open>The initial values of the option variables.\<close>

definition default_flags :: flags where
  "default_flags =
     \<lparr>NumSolutions = - 1, RejectDuplicateWords = True, UseNaiveMethod = False,
      PrintEveryNthSolution = 1\<rparr>"

subsection \<open>The exact-cover matrix\<close>

text \<open>
  Modelled from the spec: \<^verbatim>\<open>dancing.c\<close> and \<^verbatim>\<open>dancing.h\<close> are not among the sources.
  The specification's matrix is a sparse 0/1 matrix with a fixed number of columns to
  which rows are appended; here it is the number of columns and the list of rows, each
  row the list of the columns in which it has a 1. \<open>dance_init\<close> builds the empty matrix,
  \<open>dance_addrow\<close> appends a row and fails, leaving the matrix as it is, if an index is
  out of range. An exact cover is a set of rows with exactly one 1 in every column.
\<close>

record dance_matrix =
  ncolumns :: nat
  mat_rows :: "nat list list"

definition dance_init :: "nat \<Rightarrow> dance_matrix" where
  "dance_init cols = \<lparr>ncolumns = cols, mat_rows = []\<rparr>"

definition dance_addrow :: "dance_matrix \<Rightarrow> nat list \<Rightarrow> dance_matrix" where
  "dance_addrow mat constraint =
     (if list_all (\<lambda>c. c < ncolumns mat) constraint
      then mat\<lparr>mat_rows := mat_rows mat @ [constraint]\<rparr>
      else mat)"

definition is_exact_cover :: "dance_matrix \<Rightarrow> nat set \<Rightarrow> bool" where
  "is_exact_cover mat S =
     (S \<subseteq> {..<length (mat_rows mat)} \<and>
      (\<forall>c<ncolumns mat. \<exists>!r. r \<in> S \<and> c \<in> set (mat_rows mat ! r)))"

subsection \<open>Building the matrix\<close>

text \<open>
  \<^verbatim>\<open>add_rows_for_word\<close>: the two nested loops visit the positions row by row; the return
  codes of \<^verbatim>\<open>add_row_across\<close> and \<^verbatim>\<open>add_row_down\<close> are ignored by the source.
\<close>

fun add_rows_for_word_loop ::
  "flags \<Rightarrow> xword_info \<Rightarrow> string \<Rightarrow> nat \<Rightarrow> (nat \<times> nat) list \<Rightarrow> dance_matrix \<Rightarrow>
     dance_matrix option" where
  "add_rows_for_word_loop cfg info word wlen [] mat = Some mat"
| "add_rows_for_word_loop cfg info word wlen ((i, j) # ps) mat =
     (case (if entry_fits_across (info_grid info) (info_w info) (info_h info) i j word wlen = 1
            then map_option (dance_addrow mat) (add_row_across cfg info i j word wlen)
            else Some mat) of
        None \<Rightarrow> None
      | Some mat1 \<Rightarrow>
          (case (if entry_fits_down (info_grid info) (info_w info) (info_h info) i j word wlen = 1
                 then map_option (dance_addrow mat1) (add_row_down cfg info i j word wlen)
                 else Some mat1) of
             None \<Rightarrow> None
           | Some mat2 \<Rightarrow> add_rows_for_word_loop cfg info word wlen ps mat2))"

definition add_rows_for_word ::
  "flags \<Rightarrow> xword_info \<Rightarrow> string \<Rightarrow> dance_matrix \<Rightarrow> dance_matrix option" where
  "add_rows_for_word cfg info word mat =
     add_rows_for_word_loop cfg info word (length word)
       (concat (map (\<lambda>j. map (\<lambda>i. (i, j)) [0..<info_w info]) [0..<info_h info])) mat"

text \<open>
  \<^verbatim>\<open>struct xdict\<close>: the bucket \<open>dict ! k\<close> holds the words of length \<open>k\<close>, for \<open>k\<close> below
  \<^verbatim>\<open>XDICT_MAXLENGTH\<close>, which \<^verbatim>\<open>xdictlib.h\<close> defines as 10: \<^verbatim>\<open>xdict_addword\<close> takes the
  words of 3 to 9 letters. \<^verbatim>\<open>xdict_find(dict, "*", f, info)\<close> calls \<open>f\<close> on every word,
  bucket by bucket, as long as \<open>f\<close> returns 0, which \<^verbatim>\<open>add_rows_for_word\<close> always does.
\<close>

type_synonym xdict = "string list list"

definition XDICT_MAXLENGTH :: nat where
  "XDICT_MAXLENGTH = 10"

fun xdict_find_add_rows ::
  "flags \<Rightarrow> xword_info \<Rightarrow> string list \<Rightarrow> dance_matrix \<Rightarrow> dance_matrix option" where
  "xdict_find_add_rows cfg info [] mat = Some mat"
| "xdict_find_add_rows cfg info (word # ws) mat =
     (case add_rows_for_word cfg info word mat of
        None \<Rightarrow> None
      | Some mat' \<Rightarrow> xdict_find_add_rows cfg info ws mat')"

definition add_row_black :: "flags \<Rightarrow> nat \<Rightarrow> nat list option" where
  "add_row_black cfg cell =
     (if \<not> UseNaiveMethod cfg then None
      else let constraint =
                 concat (map (\<lambda>m. let slice = 27 * 2 * cell
                                   in [slice + 2 * m + 0, slice + 2 * m + 1]) [0..<27])
           in if length constraint \<noteq> 27 * 2 then None else Some constraint)"

fun black_rows_loop ::
  "flags \<Rightarrow> string \<Rightarrow> nat list \<Rightarrow> dance_matrix \<Rightarrow> dance_matrix option" where
  "black_rows_loop cfg grid [] mat = Some mat"
| "black_rows_loop cfg grid (i # is) mat =
     (if grid ! i = CHR ''#''
      then (case add_row_black cfg i of
              None \<Rightarrow> None
            | Some row \<Rightarrow> black_rows_loop cfg grid is (dance_addrow mat row))
      else black_rows_loop cfg grid is mat)"

text \<open>
  The loop of \<^verbatim>\<open>add_row_forced_across\<close>; it returns the final \<open>k\<close> with the array. The
  three assertions after the loop are in \<open>add_row_forced_across\<close>. The array has
  \<^verbatim>\<open>MAX_WORDLEN*27\<close> entries here too; the loop writes 27 for each of its \<open>k\<close> cells, so a
  run that overruns the array ends with \<open>k > 15\<close> and the result is \<open>None\<close> by the test
  \<open>k < MAX_WORDLEN\<close>.
\<close>

function add_row_forced_across_loop ::
  "string \<Rightarrow> nat \<Rightarrow> nat \<Rightarrow> nat \<Rightarrow> nat \<Rightarrow> nat list \<Rightarrow> (nat \<times> nat list) option" where
  "add_row_forced_across_loop grid w i j k constraint =
     (if i + k < w then
        (let cell = j * w + (i + k); slice = 27 * 2 * cell in
         if grid ! cell = CHR ''#'' then Some (k, constraint)
         else if \<not> c_isalpha (grid ! cell) then None
         else (let relevant_index = ch2idx (grid ! cell) in
               add_row_forced_across_loop grid w i j (k + 1)
                 (constraint
                    @ map (\<lambda>m. slice + 2 * m + (if relevant_index \<noteq> m then 1 else 0)) [0..<26]
                    @ [slice + 2 * 26 + 0])))
      else Some (k, constraint))"
  by pat_completeness auto
termination
  by (relation "measure (\<lambda>(grid, w, i, j, k, constraint). w - (i + k))") auto

declare add_row_forced_across_loop.simps [simp del]

definition add_row_forced_across ::
  "flags \<Rightarrow> nat \<Rightarrow> nat \<Rightarrow> nat \<Rightarrow> nat \<Rightarrow> string \<Rightarrow> nat list option" where
  "add_row_forced_across cfg w h i j grid =
     (if \<not> UseNaiveMethod cfg then None
      else case add_row_forced_across_loop grid w i j 0 [] of
             None \<Rightarrow> None
           | Some (k, constraint) \<Rightarrow>
               if \<not> k < MAX_WORDLEN then None
               else if length constraint \<noteq> k * 27 then None
               else Some constraint)"

function add_row_forced_down_loop ::
  "string \<Rightarrow> nat \<Rightarrow> nat \<Rightarrow> nat \<Rightarrow> nat \<Rightarrow> nat \<Rightarrow> nat list \<Rightarrow> (nat \<times> nat list) option" where
  "add_row_forced_down_loop grid w h i j k constraint =
     (if j + k < h then
        (let cell = (j + k) * w + i; slice = 27 * 2 * cell in
         if grid ! cell = CHR ''#'' then Some (k, constraint)
         else if \<not> c_isalpha (grid ! cell) then None
         else (let relevant_index = ch2idx (grid ! cell) in
               add_row_forced_down_loop grid w h i j (k + 1)
                 (constraint
                    @ map (\<lambda>m. slice + 2 * m + (if relevant_index = m then 1 else 0)) [0..<26]
                    @ [slice + 2 * 26 + 1])))
      else Some (k, constraint))"
  by pat_completeness auto
termination
  by (relation "measure (\<lambda>(grid, w, h, i, j, k, constraint). h - (j + k))") auto

declare add_row_forced_down_loop.simps [simp del]

definition add_row_forced_down ::
  "flags \<Rightarrow> nat \<Rightarrow> nat \<Rightarrow> nat \<Rightarrow> nat \<Rightarrow> string \<Rightarrow> nat list option" where
  "add_row_forced_down cfg w h i j grid =
     (if \<not> UseNaiveMethod cfg then None
      else case add_row_forced_down_loop grid w h i j 0 [] of
             None \<Rightarrow> None
           | Some (k, constraint) \<Rightarrow>
               if \<not> k < MAX_WORDLEN then None
               else if length constraint \<noteq> k * 27 then None
               else Some constraint)"

text \<open>
  The inner \<^verbatim>\<open>while (i < w && grid[j*w+i] != '#') ++i;\<close> of the forced-placement scan of
  \<^verbatim>\<open>xword_solve\<close>, and its twin for columns.
\<close>

function skip_entry_across :: "string \<Rightarrow> nat \<Rightarrow> nat \<Rightarrow> nat \<Rightarrow> nat" where
  "skip_entry_across grid w j i =
     (if i < w \<and> grid ! (j * w + i) \<noteq> CHR ''#'' then skip_entry_across grid w j (i + 1) else i)"
  by pat_completeness auto
termination
  by (relation "measure (\<lambda>(grid, w, j, i). w - i)") auto

declare skip_entry_across.simps [simp del]

function skip_entry_down :: "string \<Rightarrow> nat \<Rightarrow> nat \<Rightarrow> nat \<Rightarrow> nat \<Rightarrow> nat" where
  "skip_entry_down grid w h i j =
     (if j < h \<and> grid ! (j * w + i) \<noteq> CHR ''#'' then skip_entry_down grid w h i (j + 1) else j)"
  by pat_completeness auto
termination
  by (relation "measure (\<lambda>(grid, w, h, i, j). h - j)") auto

declare skip_entry_down.simps [simp del]

lemma skip_entry_across_ge: "i \<le> skip_entry_across grid w j i"
  by (induction grid w j i rule: skip_entry_across.induct)
     (subst skip_entry_across.simps, auto)

lemma skip_entry_down_ge: "j \<le> skip_entry_down grid w h i j"
  by (induction grid w h i j rule: skip_entry_down.induct)
     (subst skip_entry_down.simps, auto)

text \<open>
  The scan of one row for forced placements: the body of
  \<^verbatim>\<open>for (i=0; i <= w; ++i)\<close> in \<^verbatim>\<open>xword_solve\<close>, from column \<open>i\<close> on.
\<close>

function forced_across_scan ::
  "flags \<Rightarrow> string \<Rightarrow> nat \<Rightarrow> nat \<Rightarrow> nat \<Rightarrow> nat \<Rightarrow> nat \<Rightarrow> dance_matrix \<Rightarrow> dance_matrix option" where
  "forced_across_scan cfg grid w h j i word_starts_here mat =
     (if i \<le> w then
        if (i = w \<or> grid ! (j * w + i) = CHR ''#'') \<and> word_starts_here < i then
          if \<not> i - word_starts_here \<le> MAX_WORDLEN then None
          else (case add_row_forced_across cfg w h word_starts_here j grid of
                  None \<Rightarrow> None
                | Some row \<Rightarrow>
                    forced_across_scan cfg grid w h j (i + 1) (i + 1) (dance_addrow mat row))
        else if i = w then Some mat
        else if \<not> c_isalpha (grid ! (j * w + i)) then
          forced_across_scan cfg grid w h j (skip_entry_across grid w j i + 1)
            (skip_entry_across grid w j i + 1) mat
        else forced_across_scan cfg grid w h j (i + 1) word_starts_here mat
      else Some mat)"
  by pat_completeness auto
termination
proof (relation "measure (\<lambda>(cfg, grid, w, h, j, i, word_starts_here, mat). w + 1 - i)",
    goal_cases)
  case 1
  show ?case by simp
next
  case (2 cfg grid w h j i word_starts_here mat row)
  then show ?case by auto
next
  case (3 cfg grid w h j i word_starts_here mat)
  then show ?case using skip_entry_across_ge[of i grid w j] by auto
next
  case (4 cfg grid w h j i word_starts_here mat)
  then show ?case by auto
qed

declare forced_across_scan.simps [simp del]

function forced_down_scan ::
  "flags \<Rightarrow> string \<Rightarrow> nat \<Rightarrow> nat \<Rightarrow> nat \<Rightarrow> nat \<Rightarrow> nat \<Rightarrow> dance_matrix \<Rightarrow> dance_matrix option" where
  "forced_down_scan cfg grid w h i j word_starts_here mat =
     (if j \<le> h then
        if (j = h \<or> grid ! (j * w + i) = CHR ''#'') \<and> word_starts_here < j then
          if \<not> j - word_starts_here \<le> MAX_WORDLEN then None
          else (case add_row_forced_down cfg w h i word_starts_here grid of
                  None \<Rightarrow> None
                | Some row \<Rightarrow>
                    forced_down_scan cfg grid w h i (j + 1) (j + 1) (dance_addrow mat row))
        else if j = h then Some mat
        else if \<not> c_isalpha (grid ! (j * w + i)) then
          forced_down_scan cfg grid w h i (skip_entry_down grid w h i j + 1)
            (skip_entry_down grid w h i j + 1) mat
        else forced_down_scan cfg grid w h i (j + 1) word_starts_here mat
      else Some mat)"
  by pat_completeness auto
termination
proof (relation "measure (\<lambda>(cfg, grid, w, h, i, j, word_starts_here, mat). h + 1 - j)",
    goal_cases)
  case 1
  show ?case by simp
next
  case (2 cfg grid w h i j word_starts_here mat row)
  then show ?case by auto
next
  case (3 cfg grid w h i j word_starts_here mat)
  then show ?case using skip_entry_down_ge[of j grid w h i] by auto
next
  case (4 cfg grid w h i j word_starts_here mat)
  then show ?case by auto
qed

declare forced_down_scan.simps [simp del]

fun forced_across_rows ::
  "flags \<Rightarrow> string \<Rightarrow> nat \<Rightarrow> nat \<Rightarrow> nat list \<Rightarrow> dance_matrix \<Rightarrow> dance_matrix option" where
  "forced_across_rows cfg grid w h [] mat = Some mat"
| "forced_across_rows cfg grid w h (j # js) mat =
     (case forced_across_scan cfg grid w h j 0 0 mat of
        None \<Rightarrow> None
      | Some mat' \<Rightarrow> forced_across_rows cfg grid w h js mat')"

fun forced_down_rows ::
  "flags \<Rightarrow> string \<Rightarrow> nat \<Rightarrow> nat \<Rightarrow> nat list \<Rightarrow> dance_matrix \<Rightarrow> dance_matrix option" where
  "forced_down_rows cfg grid w h [] mat = Some mat"
| "forced_down_rows cfg grid w h (i # is) mat =
     (case forced_down_scan cfg grid w h i 0 0 mat of
        None \<Rightarrow> None
      | Some mat' \<Rightarrow> forced_down_rows cfg grid w h is mat')"

text \<open>
  The extra rows of naive mode, in the order \<^verbatim>\<open>xword_solve\<close> adds them: the black cells,
  the forced placements Across row by row, the forced placements Down column by column.
\<close>

definition naive_rows ::
  "flags \<Rightarrow> string \<Rightarrow> nat \<Rightarrow> nat \<Rightarrow> dance_matrix \<Rightarrow> dance_matrix option" where
  "naive_rows cfg grid w h mat =
     (case black_rows_loop cfg grid [0..<w * h] mat of
        None \<Rightarrow> None
      | Some mat1 \<Rightarrow>
          (case forced_across_rows cfg grid w h [0..<h] mat1 of
             None \<Rightarrow> None
           | Some mat2 \<Rightarrow> forced_down_rows cfg grid w h [0..<w] mat2))"

text \<open>\<^verbatim>\<open>xword_solve\<close> up to the call of \<^verbatim>\<open>dance_solve\<close>: the completed matrix.\<close>

definition xword_solve_matrix ::
  "flags \<Rightarrow> string \<Rightarrow> nat \<Rightarrow> nat \<Rightarrow> xdict \<Rightarrow> dance_matrix option" where
  "xword_solve_matrix cfg grid w h dict =
     (let info = \<lparr>info_w = w, info_h = h, info_grid = grid\<rparr> in
      case NUMBER_OF_SLICES cfg info of
        None \<Rightarrow> None
      | Some ns \<Rightarrow>
          (case xdict_find_add_rows cfg info (concat dict) (dance_init (27 * 2 * ns)) of
             None \<Rightarrow> None
           | Some mat \<Rightarrow> if UseNaiveMethod cfg then naive_rows cfg grid w h mat else Some mat))"

subsection \<open>Pruning the dictionary\<close>

text \<open>
  How the scan of one word in \<^verbatim>\<open>strip_dict\<close> ends: by \<^verbatim>\<open>goto remove_it\<close>, by
  \<^verbatim>\<open>goto next\<close>, or by running through all positions with the flag \<^verbatim>\<open>fits_in_grid\<close>.
  In the \<^verbatim>\<open>switch\<close>, \<^verbatim>\<open>case 2\<close> falls through to \<^verbatim>\<open>case 1\<close> when duplicates are allowed,
  and \<^verbatim>\<open>case 1\<close> then leaves by \<^verbatim>\<open>goto next\<close>.
\<close>

datatype strip_verdict = Goto_remove_it | Goto_next | Scanned bool

fun strip_scan_across ::
  "flags \<Rightarrow> string \<Rightarrow> nat \<Rightarrow> nat \<Rightarrow> string \<Rightarrow> nat \<Rightarrow> (nat \<times> nat) list \<Rightarrow> bool \<Rightarrow>
     strip_verdict" where
  "strip_scan_across cfg grid w h word k [] fits_in_grid = Scanned fits_in_grid"
| "strip_scan_across cfg grid w h word k ((i, j) # ps) fits_in_grid =
     (let rc = entry_fits_across grid w h i j word k in
      if rc = 2 then
        (if RejectDuplicateWords cfg then Goto_remove_it else Goto_next)
      else if rc = 1 then
        (if \<not> RejectDuplicateWords cfg then Goto_next
         else strip_scan_across cfg grid w h word k ps True)
      else strip_scan_across cfg grid w h word k ps fits_in_grid)"

fun strip_scan_down ::
  "flags \<Rightarrow> string \<Rightarrow> nat \<Rightarrow> nat \<Rightarrow> string \<Rightarrow> nat \<Rightarrow> (nat \<times> nat) list \<Rightarrow> bool \<Rightarrow>
     strip_verdict" where
  "strip_scan_down cfg grid w h word k [] fits_in_grid = Scanned fits_in_grid"
| "strip_scan_down cfg grid w h word k ((i, j) # ps) fits_in_grid =
     (let rc = entry_fits_down grid w h i j word k in
      if rc = 2 then
        (if RejectDuplicateWords cfg then Goto_remove_it else Goto_next)
      else if rc = 1 then
        (if \<not> RejectDuplicateWords cfg then Goto_next
         else strip_scan_down cfg grid w h word k ps True)
      else strip_scan_down cfg grid w h word k ps fits_in_grid)"

text \<open>
  Whether \<^verbatim>\<open>strip_dict\<close> removes the word it is looking at. The loop bounds \<^verbatim>\<open>w-k+1\<close>
  and \<^verbatim>\<open>h-k+1\<close> are not positive when the word is too long, and the loops are empty.
\<close>

definition strip_removes :: "flags \<Rightarrow> string \<Rightarrow> nat \<Rightarrow> nat \<Rightarrow> string \<Rightarrow> nat \<Rightarrow> bool" where
  "strip_removes cfg grid w h word k =
     (case strip_scan_across cfg grid w h word k
             (concat (map (\<lambda>j. map (\<lambda>i. (i, j)) [0..<w + 1 - k]) [0..<h])) False of
        Goto_remove_it \<Rightarrow> True
      | Goto_next \<Rightarrow> False
      | Scanned fits_across \<Rightarrow>
          (case strip_scan_down cfg grid w h word k
                  (concat (map (\<lambda>j. map (\<lambda>i. (i, j)) [0..<w]) [0..<h + 1 - k])) fits_across of
             Goto_remove_it \<Rightarrow> True
           | Goto_next \<Rightarrow> False
           | Scanned fits_in_grid \<Rightarrow> \<not> fits_in_grid))"

text \<open>
  The loop \<^verbatim>\<open>for (widx=0; widx < dict->len[k]; ++widx)\<close> over one bucket. Removing the
  word at \<open>widx\<close> moves the last word of the bucket into its place and shortens the
  bucket; the loop then goes on to \<open>widx + 1\<close>.
\<close>

function strip_bucket ::
  "flags \<Rightarrow> string \<Rightarrow> nat \<Rightarrow> nat \<Rightarrow> nat \<Rightarrow> string list \<Rightarrow> nat \<Rightarrow> string list" where
  "strip_bucket cfg grid w h k ws widx =
     (if widx < length ws then
        (if strip_removes cfg grid w h (ws ! widx) k
         then strip_bucket cfg grid w h k (butlast (ws[widx := last ws])) (widx + 1)
         else strip_bucket cfg grid w h k ws (widx + 1))
      else ws)"
  by pat_completeness auto
termination
  by (relation "measure (\<lambda>(cfg, grid, w, h, k, ws, widx). length ws - widx)") auto

declare strip_bucket.simps [simp del]

definition strip_dict :: "flags \<Rightarrow> string \<Rightarrow> nat \<Rightarrow> nat \<Rightarrow> xdict \<Rightarrow> xdict" where
  "strip_dict cfg grid w h dict =
     map (\<lambda>k. strip_bucket cfg grid w h k (dict ! k) 0) [0..<XDICT_MAXLENGTH]"

subsection \<open>Duplicate detection\<close>

text \<open>
  \<^verbatim>\<open>grid_contains_duplicates\<close> allocates the array \<^verbatim>\<open>dict\<close> and one string per entry.
  The parameter \<open>mem\<close> is the number of allocations that succeed before \<^verbatim>\<open>malloc\<close>
  returns \<^verbatim>\<open>NULL\<close>. The state of the scan is the entries collected so far, the
  allocations left and \<^verbatim>\<open>rc\<close>.

  The inner loop \<^verbatim>\<open>for (end=i; end < w; ++end)\<close> returns \<open>end\<close> and the flag \<open>invalid\<close>.
\<close>

fun gcd_end_across :: "string \<Rightarrow> nat \<Rightarrow> nat \<Rightarrow> nat list \<Rightarrow> bool \<Rightarrow> nat \<times> bool" where
  "gcd_end_across grid w j [] invalid = (w, invalid)"
| "gcd_end_across grid w j (e # es) invalid =
     (if grid ! (j * w + e) = CHR ''#'' then (e, invalid)
      else gcd_end_across grid w j es (invalid \<or> strchr ''.01'' (grid ! (j * w + e))))"

fun gcd_end_down :: "string \<Rightarrow> nat \<Rightarrow> nat \<Rightarrow> nat \<Rightarrow> nat list \<Rightarrow> bool \<Rightarrow> nat \<times> bool" where
  "gcd_end_down grid w h i [] invalid = (h, invalid)"
| "gcd_end_down grid w h i (e # es) invalid =
     (if grid ! (e * w + i) = CHR ''#'' then (e, invalid)
      else gcd_end_down grid w h i es (invalid \<or> strchr ''.01'' (grid ! (e * w + i))))"

lemma gcd_end_across_mem: "fst (gcd_end_across grid w j es invalid) \<in> set es \<union> {w}"
  by (induction es arbitrary: invalid) auto

lemma gcd_end_down_mem: "fst (gcd_end_down grid w h i es invalid) \<in> set es \<union> {h}"
  by (induction es arbitrary: invalid) auto

lemma gcd_end_across_gt:
  "i < w \<Longrightarrow> grid ! (j * w + i) \<noteq> CHR ''#'' \<Longrightarrow> i < fst (gcd_end_across grid w j [i..<w] invalid)"
  using gcd_end_across_mem[of grid w j "[Suc i..<w]" "invalid \<or> strchr ''.01'' (grid ! (j * w + i))"]
  by (auto simp: upt_rec[of i w])

lemma gcd_end_down_gt:
  "j < h \<Longrightarrow> grid ! (j * w + i) \<noteq> CHR ''#'' \<Longrightarrow> j < fst (gcd_end_down grid w h i [j..<h] invalid)"
  using gcd_end_down_mem[of grid w h i "[Suc j..<h]" "invalid \<or> strchr ''.01'' (grid ! (j * w + i))"]
  by (auto simp: upt_rec[of j h])

text \<open>The loop \<^verbatim>\<open>for (i=0; i < w; i = end)\<close> over row \<open>j\<close>, from column \<open>i\<close> on.\<close>

function gcd_across_row ::
  "string \<Rightarrow> nat \<Rightarrow> nat \<Rightarrow> nat \<Rightarrow> string list \<times> nat \<times> int \<Rightarrow> string list \<times> nat \<times> int" where
  "gcd_across_row grid w j i (dict, mem, rc) =
     (if i < w then
        if grid ! (j * w + i) = CHR ''#'' then gcd_across_row grid w j (i + 1) (dict, mem, rc)
        else if snd (gcd_end_across grid w j [i..<w] False)
        then gcd_across_row grid w j (fst (gcd_end_across grid w j [i..<w] False)) (dict, mem, rc)
        else if mem = 0 then (dict, mem, - 3)
        else gcd_across_row grid w j (fst (gcd_end_across grid w j [i..<w] False))
               (dict @ [map (\<lambda>k. c_tolower (grid ! (j * w + (i + k))))
                          [0..<fst (gcd_end_across grid w j [i..<w] False) - i]],
                mem - 1, rc)
      else (dict, mem, rc))"
  by pat_completeness auto
termination
proof (relation "measure (\<lambda>(grid, w, j, i, s). w - i)", goal_cases)
  case 1
  show ?case by simp
next
  case (2 grid w j i dict mem rc)
  then show ?case by auto
next
  case (3 grid w j i dict mem rc)
  then show ?case using gcd_end_across_gt[of i w grid j False] by auto
next
  case (4 grid w j i dict mem rc)
  then show ?case using gcd_end_across_gt[of i w grid j False] by auto
qed

declare gcd_across_row.simps [simp del]

function gcd_down_col ::
  "string \<Rightarrow> nat \<Rightarrow> nat \<Rightarrow> nat \<Rightarrow> nat \<Rightarrow> string list \<times> nat \<times> int \<Rightarrow> string list \<times> nat \<times> int" where
  "gcd_down_col grid w h i j (dict, mem, rc) =
     (if j < h then
        if grid ! (j * w + i) = CHR ''#'' then gcd_down_col grid w h i (j + 1) (dict, mem, rc)
        else if snd (gcd_end_down grid w h i [j..<h] False)
        then gcd_down_col grid w h i (fst (gcd_end_down grid w h i [j..<h] False)) (dict, mem, rc)
        else if mem = 0 then (dict, mem, - 3)
        else gcd_down_col grid w h i (fst (gcd_end_down grid w h i [j..<h] False))
               (dict @ [map (\<lambda>k. c_tolower (grid ! ((j + k) * w + i)))
                          [0..<fst (gcd_end_down grid w h i [j..<h] False) - j]],
                mem - 1, rc)
      else (dict, mem, rc))"
  by pat_completeness auto
termination
proof (relation "measure (\<lambda>(grid, w, h, i, j, s). h - j)", goal_cases)
  case 1
  show ?case by simp
next
  case (2 grid w h i j dict mem rc)
  then show ?case by auto
next
  case (3 grid w h i j dict mem rc)
  then show ?case using gcd_end_down_gt[of j h grid w i False] by auto
next
  case (4 grid w h i j dict mem rc)
  then show ?case using gcd_end_down_gt[of j h grid w i False] by auto
qed

declare gcd_down_col.simps [simp del]

text \<open>
  The loop after \<^verbatim>\<open>qsort\<close>: is some entry equal to its successor? \<^verbatim>\<open>qsort\<close> with
  \<^verbatim>\<open>strcmp\<close> is \<open>sort\<close> on strings in the lexicographic order of their bytes.
\<close>

fun gcd_adjacent :: "string list \<Rightarrow> bool" where
  "gcd_adjacent (x # y # zs) = (x = y \<or> gcd_adjacent (y # zs))"
| "gcd_adjacent _ = False"

definition gcd_entries :: "string \<Rightarrow> nat \<Rightarrow> nat \<Rightarrow> nat \<Rightarrow> string list \<times> nat \<times> int" where
  "gcd_entries grid w h mem =
     foldl (\<lambda>s i. gcd_down_col grid w h i 0 s)
       (foldl (\<lambda>s j. gcd_across_row grid w j 0 s) ([], mem, 0) [0..<h]) [0..<w]"

definition grid_contains_duplicates :: "string \<Rightarrow> nat \<Rightarrow> nat \<Rightarrow> nat \<Rightarrow> int" where
  "grid_contains_duplicates grid w h mem =
     (if mem = 0 then - 3
      else let s = gcd_entries grid w h (mem - 1);
               dict = sort (fst s);
               rc = snd (snd s)
           in if gcd_adjacent dict then 1 else rc)"

subsection \<open>Vocabulary for duplicate detection\<close>

text \<open>
  The scan of a row and the scan of a column in \<^verbatim>\<open>grid_contains_duplicates\<close> are the same
  loop over a line of cells: \<open>line_end\<close> and \<open>line_scan\<close> are \<open>gcd_end_across\<close> and
  \<open>gcd_across_row\<close> for a line given as the function \<open>c\<close> from positions below \<open>n\<close> to
  characters. They serve to reason about the two scans at once.
\<close>

fun line_end :: "(nat \<Rightarrow> char) \<Rightarrow> nat \<Rightarrow> nat list \<Rightarrow> bool \<Rightarrow> nat \<times> bool" where
  "line_end c n [] invalid = (n, invalid)"
| "line_end c n (e # es) invalid =
     (if c e = CHR ''#'' then (e, invalid)
      else line_end c n es (invalid \<or> strchr ''.01'' (c e)))"

lemma line_end_mem: "fst (line_end c n es invalid) \<in> set es \<union> {n}"
  by (induction es arbitrary: invalid) auto

lemma line_end_gt:
  "i < n \<Longrightarrow> c i \<noteq> CHR ''#'' \<Longrightarrow> i < fst (line_end c n [i..<n] invalid)"
  using line_end_mem[of c n "[Suc i..<n]" "invalid \<or> strchr ''.01'' (c i)"]
  by (auto simp: upt_rec[of i n])

function line_scan ::
  "(nat \<Rightarrow> char) \<Rightarrow> nat \<Rightarrow> nat \<Rightarrow> string list \<times> nat \<times> int \<Rightarrow> string list \<times> nat \<times> int" where
  "line_scan c n i (dict, mem, rc) =
     (if i < n then
        if c i = CHR ''#'' then line_scan c n (i + 1) (dict, mem, rc)
        else if snd (line_end c n [i..<n] False)
        then line_scan c n (fst (line_end c n [i..<n] False)) (dict, mem, rc)
        else if mem = 0 then (dict, mem, - 3)
        else line_scan c n (fst (line_end c n [i..<n] False))
               (dict @ [map (\<lambda>k. c_tolower (c (i + k))) [0..<fst (line_end c n [i..<n] False) - i]],
                mem - 1, rc)
      else (dict, mem, rc))"
  by pat_completeness auto
termination
proof (relation "measure (\<lambda>(c, n, i, s). n - i)", goal_cases)
  case 1
  show ?case by simp
next
  case (2 c n i dict mem rc)
  then show ?case by auto
next
  case (3 c n i dict mem rc)
  then show ?case using line_end_gt[of i n c False] by auto
next
  case (4 c n i dict mem rc)
  then show ?case using line_end_gt[of i n c False] by auto
qed

declare line_scan.simps [simp del]

text \<open>
  In a line, the cells from \<open>a\<close> up to \<open>b\<close> (excluded) form a run when they are a maximal
  stretch without a black cell; the run is complete for the code when \<^verbatim>\<open>strchr\<close> finds
  none of its cells in \<^verbatim>\<open>".01"\<close>; its text is its characters in lower case.
\<close>

definition is_line_run :: "(nat \<Rightarrow> char) \<Rightarrow> nat \<Rightarrow> nat \<Rightarrow> nat \<Rightarrow> bool" where
  "is_line_run c n a b =
     (a < b \<and> b \<le> n \<and> (\<forall>x. a \<le> x \<and> x < b \<longrightarrow> c x \<noteq> CHR ''#'') \<and>
      (a = 0 \<or> c (a - 1) = CHR ''#'') \<and> (b = n \<or> c b = CHR ''#''))"

definition line_complete :: "(nat \<Rightarrow> char) \<Rightarrow> nat \<Rightarrow> nat \<Rightarrow> bool" where
  "line_complete c a b = (\<forall>x. a \<le> x \<and> x < b \<longrightarrow> \<not> strchr ''.01'' (c x))"

definition line_text :: "(nat \<Rightarrow> char) \<Rightarrow> nat \<times> nat \<Rightarrow> string" where
  "line_text c r = map (\<lambda>x. c_tolower (c x)) [fst r..<snd r]"

text \<open>
  The runs of the specification. A run is given by its orientation, its line (the row of
  an Across run, the column of a Down run) and the positions \<open>a\<close> (first cell) and \<open>b\<close>
  (one past the last cell) in that line. It is maximal when its cells are on the grid and
  not black and the cells before and after it are off the grid or black; filled when
  none of its cells is \<open>.\<close>, \<open>0\<close> or \<open>1\<close>. \<open>has_duplicate_runs norm minlen\<close> says that two
  different filled maximal runs of at least \<open>minlen\<close> cells have the same text once
  \<open>norm\<close> is applied to every character: the specification's duplicate runs are
  \<open>has_duplicate_runs (\<lambda>c. c) 3\<close>.
\<close>

definition run_cell :: "nat \<Rightarrow> orientation \<Rightarrow> nat \<Rightarrow> nat \<Rightarrow> nat" where
  "run_cell w d l x = (case d of Across \<Rightarrow> l * w + x | Down \<Rightarrow> x * w + l)"

type_synonym grid_run = "orientation \<times> nat \<times> nat \<times> nat"

definition is_maximal_run :: "string \<Rightarrow> nat \<Rightarrow> nat \<Rightarrow> grid_run \<Rightarrow> bool" where
  "is_maximal_run grid w h r =
     (case r of (d, l, a, b) \<Rightarrow>
        l < (case d of Across \<Rightarrow> h | Down \<Rightarrow> w) \<and> a < b \<and>
        b \<le> (case d of Across \<Rightarrow> w | Down \<Rightarrow> h) \<and>
        (\<forall>x. a \<le> x \<and> x < b \<longrightarrow> grid ! run_cell w d l x \<noteq> CHR ''#'') \<and>
        (a = 0 \<or> grid ! run_cell w d l (a - 1) = CHR ''#'') \<and>
        (b = (case d of Across \<Rightarrow> w | Down \<Rightarrow> h) \<or> grid ! run_cell w d l b = CHR ''#''))"

definition run_text :: "(char \<Rightarrow> char) \<Rightarrow> string \<Rightarrow> nat \<Rightarrow> grid_run \<Rightarrow> string" where
  "run_text norm grid w r =
     (case r of (d, l, a, b) \<Rightarrow> map (\<lambda>x. norm (grid ! run_cell w d l x)) [a..<b])"

definition run_filled :: "string \<Rightarrow> nat \<Rightarrow> grid_run \<Rightarrow> bool" where
  "run_filled grid w r =
     (case r of (d, l, a, b) \<Rightarrow>
        \<forall>x. a \<le> x \<and> x < b \<longrightarrow>
          grid ! run_cell w d l x \<notin> {CHR ''.'', CHR ''0'', CHR ''1''})"

definition run_length :: "grid_run \<Rightarrow> nat" where
  "run_length r = (case r of (d, l, a, b) \<Rightarrow> b - a)"

definition has_duplicate_runs ::
  "(char \<Rightarrow> char) \<Rightarrow> nat \<Rightarrow> string \<Rightarrow> nat \<Rightarrow> nat \<Rightarrow> bool" where
  "has_duplicate_runs norm minlen grid w h =
     (\<exists>r1 r2. r1 \<noteq> r2 \<and> is_maximal_run grid w h r1 \<and> is_maximal_run grid w h r2 \<and>
        minlen \<le> run_length r1 \<and> minlen \<le> run_length r2 \<and>
        run_filled grid w r1 \<and> run_filled grid w r2 \<and>
        run_text norm grid w r1 = run_text norm grid w r2)"

subsection \<open>The solution callback\<close>

text \<open>
  The two \<^verbatim>\<open>static\<close> counters of \<^verbatim>\<open>print_crossword_result\<close> live as long as the process;
  the callback takes their values and returns the new ones.
\<close>

record counters =
  printed_so_far :: int
  skipped_so_far :: int

definition initial_counters :: counters where
  "initial_counters = \<lparr>printed_so_far = 0, skipped_so_far = 0\<rparr>"

text \<open>
  A chosen row reaches the callback as one of its nodes; walking \<^verbatim>\<open>o->right\<close> visits the
  columns of the row, here a list. Modelled from the spec: the name of a column is its
  index in decimal, so \<^verbatim>\<open>atoi(o->column->name)\<close> is the index.

  The first \<^verbatim>\<open>do\<close> loop sets the two orientation flags.
\<close>

fun row_orientation :: "nat list \<Rightarrow> bool \<times> bool \<Rightarrow> bool \<times> bool" where
  "row_orientation [] flags = flags"
| "row_orientation (colx # cs) (this_is_an_across_word, this_is_a_down_word) =
     (if colx mod 54 = 52 then row_orientation cs (True, this_is_a_down_word)
      else if colx mod 54 = 53 then row_orientation cs (this_is_an_across_word, True)
      else row_orientation cs (this_is_an_across_word, this_is_a_down_word))"

text \<open>The second \<^verbatim>\<open>do\<close> loop writes the letters of an Across row into the working grid.\<close>

fun extract_letters :: "flags \<Rightarrow> xword_info \<Rightarrow> nat list \<Rightarrow> string \<Rightarrow> string option" where
  "extract_letters cfg info [] grid = Some grid"
| "extract_letters cfg info (colx # cs) grid =
     (case SLICE_TO_CELL cfg (colx div 54) info of
        None \<Rightarrow> None
      | Some cell \<Rightarrow>
          if \<not> cell < info_w info * info_h info then None
          else if colx mod 2 = 0 then
            (let letter_idx = (colx mod 54) div 2 in
             if letter_idx = 26 then extract_letters cfg info cs grid
             else if \<not> letter_idx < 26 then None
             else extract_letters cfg info cs (grid[cell := idx2ch letter_idx]))
          else extract_letters cfg info cs grid)"

fun decode_solution ::
  "flags \<Rightarrow> xword_info \<Rightarrow> nat list list \<Rightarrow> string \<Rightarrow> string option" where
  "decode_solution cfg info [] grid = Some grid"
| "decode_solution cfg info (row # sol) grid =
     (let orient = row_orientation row (False, False) in
      if \<not> (fst orient \<or> snd orient) then None
      else if fst orient \<and> snd orient then
        (if \<not> UseNaiveMethod cfg then None else decode_solution cfg info sol grid)
      else if snd orient then decode_solution cfg info sol grid
      else (case extract_letters cfg info row grid of
              None \<Rightarrow> None
            | Some grid' \<Rightarrow> decode_solution cfg info sol grid'))"

text \<open>What the callback prints for a grid: its rows, each on a line, and an empty line.\<close>

definition grid_text :: "string \<Rightarrow> nat \<Rightarrow> nat \<Rightarrow> string" where
  "grid_text grid w h =
     concat (map (\<lambda>j. map (\<lambda>i. grid ! (j * w + i)) [0..<w] @ [CHR 0x0A]) [0..<h]) @ [CHR 0x0A]"

text \<open>
  \<^verbatim>\<open>print_crossword_result\<close>: the value returned to the solver, the counters afterwards
  and the grids printed (none or one). \<open>mem\<close> is the number of allocations that succeed
  during the call.
\<close>

definition print_crossword_result ::
  "flags \<Rightarrow> nat \<Rightarrow> xword_info \<Rightarrow> counters \<Rightarrow> nat list list \<Rightarrow>
     (int \<times> counters \<times> string list) option" where
  "print_crossword_result cfg mem info st sol =
     (let w = info_w info; h = info_h info;
          st1 = (if PrintEveryNthSolution cfg \<noteq> 1
                 then st\<lparr>skipped_so_far := skipped_so_far st + 1\<rparr> else st)
      in
      if PrintEveryNthSolution cfg \<noteq> 1 \<and> skipped_so_far st1 < PrintEveryNthSolution cfg
      then Some (0, st1, [])
      else
        (let st2 = (if PrintEveryNthSolution cfg \<noteq> 1 then st1\<lparr>skipped_so_far := 0\<rparr> else st1)
         in
         if \<not> (NumSolutions cfg = - 1 \<or> printed_so_far st2 < NumSolutions cfg) then None
         else if mem = 0 then Some (- 3, st2, [])
         else
           (case decode_solution cfg info sol (take (w * h) (info_grid info)) of
              None \<Rightarrow> None
            | Some grid \<Rightarrow>
                (let rc = (if RejectDuplicateWords cfg
                           then grid_contains_duplicates grid w h (mem - 1) else 0)
                 in
                 if rc < 0 then Some (- 1, st2, [])
                 else if rc = 1 then Some (0, st2, [])
                 else if rc \<noteq> 0 then None
                 else
                   (let st3 = st2\<lparr>printed_so_far := printed_so_far st2 + 1\<rparr>
                    in Some (if printed_so_far st3 = NumSolutions cfg then - 99 else 1,
                             st3, [grid_text grid w h]))))))"

text \<open>
  Modelled from the spec: \<^verbatim>\<open>dance_solve\<close> is not among the sources. The solver calls
  the callback on each cover it finds, in its fixed order; a negative return value aborts
  the search and is returned; every other value is added to the count, which is
  returned at the end. \<open>sols\<close> are the covers still to come.
\<close>

fun dance_solve_callbacks ::
  "flags \<Rightarrow> nat \<Rightarrow> xword_info \<Rightarrow> nat list list list \<Rightarrow> counters \<Rightarrow> int \<Rightarrow> string list \<Rightarrow>
     (int \<times> counters \<times> string list) option" where
  "dance_solve_callbacks cfg mem info [] st count out = Some (count, st, out)"
| "dance_solve_callbacks cfg mem info (sol # sols) st count out =
     (case print_crossword_result cfg mem info st sol of
        None \<Rightarrow> None
      | Some (rc, st', printed) \<Rightarrow>
          if rc < 0 then Some (rc, st', out @ printed)
          else dance_solve_callbacks cfg mem info sols st' (count + rc) (out @ printed))"

subsection \<open>The search\<close>

text \<open>
  Modelled from the spec: Algorithm X as the specification describes it, on the matrix
  as a list of rows. \<open>cols\<close> is the chain of uncovered column headers, \<open>active\<close> are the
  rows still linked, by index and in insertion order, and \<open>stack\<close> is the solution
  stack, the most recent node first; a node is a row with the column in which it was
  chosen. With no column left the stack is a cover. Otherwise the column with the fewest
  rows is chosen, the first of them along the chain; if it has no row the branch is
  dead; otherwise each of its rows, from the top, is pushed in turn, and covering the
  columns of the row removes these columns and every row that shares one with it. The
  result lists the covers in the order in which the search reaches them.
\<close>

definition column_count :: "nat list list \<Rightarrow> nat list \<Rightarrow> nat \<Rightarrow> nat" where
  "column_count rws active c = length (filter (\<lambda>r. c \<in> set (rws ! r)) active)"

function dance_search ::
  "nat list list \<Rightarrow> nat list \<Rightarrow> nat list \<Rightarrow> (nat \<times> nat) list \<Rightarrow> (nat \<times> nat) list list" where
  "dance_search rws cols active stack =
     (if cols = [] then [rev stack]
      else let c = arg_min_list (column_count rws active) cols in
           if column_count rws active c = 0 then []
           else concat (map (\<lambda>r. dance_search rws
                                  (filter (\<lambda>c'. c' \<notin> set (rws ! r)) cols)
                                  (filter (\<lambda>r'. set (rws ! r') \<inter> set (rws ! r) = {}) active)
                                  ((r, c) # stack))
                          (filter (\<lambda>r. c \<in> set (rws ! r)) active)))"
  by pat_completeness auto
termination
proof (relation "measure (\<lambda>(rws, cols, active, stack). length cols)", goal_cases)
  case 1
  show ?case by simp
next
  case (2 rws cols active stack c r)
  then have "c \<in> set cols" "c \<in> set (rws ! r)"
    using arg_min_list_in[of cols "column_count rws active"] by auto
  then have "length (filter (\<lambda>c'. c' \<notin> set (rws ! r)) cols) < length cols"
    by (intro length_filter_less[of c]) auto
  then show ?case by simp
qed

declare dance_search.simps [simp del]

text \<open>
  The callback walks a chosen row to the right from its node and around:
  \<open>node_row\<close> is the row in that order. \<open>dance_covers\<close> are the covers as the callback
  receives them, and \<open>dance_solve\<close> is the search with the callback of this program.
\<close>

definition node_row :: "nat list list \<Rightarrow> nat \<times> nat \<Rightarrow> nat list" where
  "node_row rws nd =
     dropWhile (\<lambda>x. x \<noteq> snd nd) (rws ! fst nd) @ takeWhile (\<lambda>x. x \<noteq> snd nd) (rws ! fst nd)"

definition dance_covers :: "dance_matrix \<Rightarrow> nat list list list" where
  "dance_covers mat =
     map (map (node_row (mat_rows mat)))
       (dance_search (mat_rows mat) [0..<ncolumns mat] [0..<length (mat_rows mat)] [])"

definition dance_solve ::
  "flags \<Rightarrow> nat \<Rightarrow> xword_info \<Rightarrow> dance_matrix \<Rightarrow> counters \<Rightarrow>
     (int \<times> counters \<times> string list) option" where
  "dance_solve cfg mem info mat st = dance_solve_callbacks cfg mem info (dance_covers mat) st 0 []"

text \<open>
  \<^verbatim>\<open>xword_solve\<close>: the matrix is built and searched; the result is the value of
  \<^verbatim>\<open>dance_solve\<close>, the counters and the grids printed. \<open>fill_grid\<close> is \<^verbatim>\<open>main\<close> from the
  call of \<^verbatim>\<open>strip_dict\<close> on, for a grid and a dictionary that are loaded, in a process
  whose counters have their initial values.
\<close>

definition xword_solve ::
  "flags \<Rightarrow> nat \<Rightarrow> string \<Rightarrow> nat \<Rightarrow> nat \<Rightarrow> xdict \<Rightarrow> counters \<Rightarrow>
     (int \<times> counters \<times> string list) option" where
  "xword_solve cfg mem grid w h dict st =
     (case xword_solve_matrix cfg grid w h dict of
        None \<Rightarrow> None
      | Some mat \<Rightarrow> dance_solve cfg mem \<lparr>info_w = w, info_h = h, info_grid = grid\<rparr> mat st)"

definition fill_grid ::
  "flags \<Rightarrow> nat \<Rightarrow> string \<Rightarrow> nat \<Rightarrow> nat \<Rightarrow> xdict \<Rightarrow> (int \<times> counters \<times> string list) option" where
  "fill_grid cfg mem grid w h dict =
     xword_solve cfg mem grid w h (strip_dict cfg grid w h dict) initial_counters"

subsection \<open>Concrete inputs\<close>

text \<open>Naive mode; a dictionary whose words all have three letters, as loaded.\<close>

definition naive_flags :: flags where
  "naive_flags = default_flags\<lparr>UseNaiveMethod := True\<rparr>"

definition three_letter_dict :: "string list \<Rightarrow> xdict" where
  "three_letter_dict ws = replicate 3 [] @ [ws] @ replicate 6 []"

text \<open>The dictionary of the vowel-wildcard scenario, sorted as \<^verbatim>\<open>xdict_load\<close> leaves it.\<close>

definition b0g_dict :: xdict where
  "b0g_dict = three_letter_dict [''bag'', ''beg'', ''bfg'', ''big'', ''bog'', ''bug'', ''byg'']"

text \<open>
  A grid with two open cells, \<open>ta.\<close> over \<open>one\<close> over \<open>ta.\<close>, and two covers of its matrix in
  compressed mode for a dictionary with \<open>tap\<close>, \<open>tat\<close>, \<open>pep\<close> and \<open>pet\<close>: the rows of \<open>tap\<close>
  in the first row, \<open>tap\<close> in the third and \<open>pep\<close> down the last column, which decode to a
  grid with the word \<open>tap\<close> twice; and the rows of \<open>tap\<close>, \<open>tat\<close> and \<open>pet\<close>.
\<close>

definition tap_info :: xword_info where
  "tap_info = \<lparr>info_w = 3, info_h = 3, info_grid = ''ta.oneta.''\<rparr>"

definition cover_tap_tap :: "nat list list" where
  "cover_tap_tap =
     [across_block 0 (ch2idx CHR ''p''), across_block 1 (ch2idx CHR ''p''),
      down_block 0 (ch2idx CHR ''p'') @ down_block 1 (ch2idx CHR ''p'')]"

definition cover_tap_tat :: "nat list list" where
  "cover_tap_tat =
     [across_block 0 (ch2idx CHR ''p''), across_block 1 (ch2idx CHR ''t''),
      down_block 0 (ch2idx CHR ''p'') @ down_block 1 (ch2idx CHR ''t'')]"

text \<open>
  A grid of one row without open cells. In compressed mode its matrix has no column, and
  the only cover is the empty one.
\<close>

definition cat_info :: xword_info where
  "cat_info = \<lparr>info_w = 3, info_h = 1, info_grid = ''cat''\<rparr>"

definition every_second_flags :: flags where
  "every_second_flags = default_flags\<lparr>PrintEveryNthSolution := 2\<rparr>"

definition first_only_flags :: flags where
  "first_only_flags = default_flags\<lparr>NumSolutions := 1\<rparr>"

subsection \<open>Vocabulary for the callback\<close>

text \<open>
  The grid a cover decodes to; the result of the duplicate check the callback runs on
  it; a cover is acceptable when the check returns 0 and rejected when it returns 1. The
  text printed for a cover. \<open>every_nth K xs\<close> are the elements of \<open>xs\<close> at the positions
  \<open>K\<close>, \<open>2 K\<close>, \<open>3 K\<close>, ... counted from 1; \<open>pick_every K s xs\<close> is the same selection when
  \<open>s\<close> elements have been passed over already. \<open>limited\<close> cuts a list of printed grids at
  the maximum number of solutions, and \<open>run_value\<close> is the value the search returns.
  \<open>emitted\<close> keeps of a search its returned value and the grids it printed.
\<close>

definition decoded :: "flags \<Rightarrow> xword_info \<Rightarrow> nat list list \<Rightarrow> string option" where
  "decoded cfg info sol =
     decode_solution cfg info sol (take (info_w info * info_h info) (info_grid info))"

definition duplicate_check :: "flags \<Rightarrow> nat \<Rightarrow> xword_info \<Rightarrow> string \<Rightarrow> int" where
  "duplicate_check cfg mem info g =
     (if RejectDuplicateWords cfg
      then grid_contains_duplicates g (info_w info) (info_h info) (mem - 1) else 0)"

definition acceptable :: "flags \<Rightarrow> nat \<Rightarrow> xword_info \<Rightarrow> nat list list \<Rightarrow> bool" where
  "acceptable cfg mem info sol =
     (case decoded cfg info sol of None \<Rightarrow> False | Some g \<Rightarrow> duplicate_check cfg mem info g = 0)"

definition rejected :: "flags \<Rightarrow> nat \<Rightarrow> xword_info \<Rightarrow> nat list list \<Rightarrow> bool" where
  "rejected cfg mem info sol =
     (case decoded cfg info sol of None \<Rightarrow> False | Some g \<Rightarrow> duplicate_check cfg mem info g = 1)"

definition solution_text :: "flags \<Rightarrow> xword_info \<Rightarrow> nat list list \<Rightarrow> string" where
  "solution_text cfg info sol =
     (case decoded cfg info sol of
        None \<Rightarrow> []
      | Some g \<Rightarrow> grid_text g (info_w info) (info_h info))"

definition every_nth :: "nat \<Rightarrow> 'a list \<Rightarrow> 'a list" where
  "every_nth K xs = map (nth xs) (filter (\<lambda>i. Suc i mod K = 0) [0..<length xs])"

fun pick_every :: "nat \<Rightarrow> nat \<Rightarrow> 'a list \<Rightarrow> 'a list" where
  "pick_every K s [] = []"
| "pick_every K s (x # xs) = (if s + 1 < K then pick_every K (s + 1) xs else x # pick_every K 0 xs)"

definition passes_gate :: "flags \<Rightarrow> counters \<Rightarrow> bool" where
  "passes_gate cfg st =
     (PrintEveryNthSolution cfg = 1 \<or> \<not> skipped_so_far st + 1 < PrintEveryNthSolution cfg)"

definition after_gate :: "flags \<Rightarrow> counters \<Rightarrow> counters" where
  "after_gate cfg st = (if PrintEveryNthSolution cfg \<noteq> 1 then st\<lparr>skipped_so_far := 0\<rparr> else st)"

definition limited :: "flags \<Rightarrow> int \<Rightarrow> 'a list \<Rightarrow> 'a list" where
  "limited cfg p xs = (if NumSolutions cfg = - 1 then xs else take (nat (NumSolutions cfg - p)) xs)"

definition run_value :: "flags \<Rightarrow> int \<Rightarrow> int \<Rightarrow> 'a list \<Rightarrow> int" where
  "run_value cfg p count xs =
     (if NumSolutions cfg \<noteq> - 1 \<and> nat (NumSolutions cfg - p) \<le> length xs then - 99
      else count + int (length xs))"

definition selected :: "flags \<Rightarrow> nat \<Rightarrow> xword_info \<Rightarrow> int \<Rightarrow> nat list list list \<Rightarrow> nat list list list" where
  "selected cfg mem info s sols =
     filter (acceptable cfg mem info) (pick_every (nat (PrintEveryNthSolution cfg)) (nat s) sols)"

definition emitted :: "(int \<times> counters \<times> string list) option \<Rightarrow> (int \<times> string list) option" where
  "emitted r = map_option (\<lambda>(rc, st, out). (rc, out)) r"

section \<open>Theorems\<close>

lemma strchr_vowels: "strchr ''aeiouy'' c \<longleftrightarrow> c \<in> vowels \<union> {CHR 0x00}"
  by (auto simp: strchr_def vowels_def)

lemma strchr_consonants: "strchr ''bcdfghjklmnpqrstvwxyz'' c \<longleftrightarrow> c \<in> consonants_y \<union> {CHR 0x00}"
  by (auto simp: strchr_def consonants_y_def)

lemma matches_unfold: "matches a b =
     (if a = CHR ''#'' \<or> b = CHR ''#'' then 0
      else if a = CHR ''.'' \<or> b = CHR ''.'' then 1
      else if a \<in> vowels \<union> {CHR 0x00} \<and> b = CHR ''0'' then 1
      else if b \<in> vowels \<union> {CHR 0x00} \<and> a = CHR ''0'' then 1
      else if a \<in> consonants_y \<union> {CHR 0x00} \<and> b = CHR ''1'' then 1
      else if b \<in> consonants_y \<union> {CHR 0x00} \<and> a = CHR ''1'' then 1
      else if c_tolower a = c_tolower b then 2 else 0)"
  unfolding matches_def strchr_vowels strchr_consonants ..

lemma matches_loose_iff: "matches a b = 1 \<longleftrightarrow>
   a \<noteq> CHR ''#'' \<and> b \<noteq> CHR ''#'' \<and>
   (a = CHR ''.'' \<or> b = CHR ''.'' \<or>
    (a = CHR ''0'' \<and> b \<in> vowels \<union> {CHR 0x00}) \<or> (b = CHR ''0'' \<and> a \<in> vowels \<union> {CHR 0x00}) \<or>
    (a = CHR ''1'' \<and> b \<in> consonants_y \<union> {CHR 0x00}) \<or> (b = CHR ''1'' \<and> a \<in> consonants_y \<union> {CHR 0x00}))"
  unfolding matches_unfold
  by (simp del: Un_iff insert_iff) blast

lemma matches_range: "matches a b = 0 \<or> matches a b = 1 \<or> matches a b = 2"
  unfolding matches_def by simp

lemma c_tolower_digit:
  "c_tolower c = CHR ''0'' \<longleftrightarrow> c = CHR ''0''"
  "c_tolower c = CHR ''1'' \<longleftrightarrow> c = CHR ''1''"
  "c_tolower c = CHR 0x00 \<longleftrightarrow> c = CHR 0x00"
  by (auto simp: c_tolower_def split: option.splits if_splits)

lemma c_tolower_moves: "c_tolower c \<noteq> c \<Longrightarrow> c_isalpha c \<and> c_isalpha (c_tolower c)"
  by (auto simp: c_tolower_def c_isalpha_def split: option.splits if_splits)

lemma c_tolower_idem: "c_tolower (c_tolower c) = c_tolower c"
  by (auto simp: c_tolower_def split: option.splits if_splits)

lemma c_tolower_eq_iff:
  "c_tolower a = c_tolower b \<longleftrightarrow>
     a = b \<or> (c_isalpha a \<and> c_isalpha b \<and> c_tolower a = c_tolower b)"
proof -
  have "c_isalpha a \<and> c_isalpha b" if eq: "c_tolower a = c_tolower b" and ne: "a \<noteq> b"
  proof (cases "c_tolower a = a")
    case True
    with eq ne have "c_tolower b \<noteq> b" by auto
    from c_tolower_moves[OF this] eq True show ?thesis by simp
  next
    case False
    from c_tolower_moves[OF False] have a: "c_isalpha a" "c_isalpha (c_tolower a)" by auto
    show ?thesis
    proof (cases "c_tolower b = b")
      case True
      with eq a show ?thesis by simp
    next
      case False
      from c_tolower_moves[OF this] a show ?thesis by simp
    qed
  qed
  then show ?thesis by blast
qed

lemma vowels_not_special:
  "c \<in> vowels \<union> {CHR 0x00} \<Longrightarrow> c \<noteq> CHR ''0'' \<and> c \<noteq> CHR ''1'' \<and> c \<noteq> CHR ''#'' \<and> c \<noteq> CHR ''.''"
  by (auto simp: vowels_def)

lemma consonants_not_special:
  "c \<in> consonants_y \<union> {CHR 0x00} \<Longrightarrow> c \<noteq> CHR ''0'' \<and> c \<noteq> CHR ''1'' \<and> c \<noteq> CHR ''#'' \<and> c \<noteq> CHR ''.''"
  by (auto simp: consonants_y_def)

lemma matches_exact_iff: "matches a b = 2 \<longleftrightarrow>
   a \<noteq> CHR ''#'' \<and> b \<noteq> CHR ''#'' \<and> a \<noteq> CHR ''.'' \<and> b \<noteq> CHR ''.'' \<and> c_tolower a = c_tolower b"
proof -
  have v: "c_tolower x \<noteq> c_tolower y" if "x \<in> vowels \<union> {CHR 0x00}" "y = CHR ''0''" for x y
  proof
    assume "c_tolower x = c_tolower y"
    with that(2) have "c_tolower x = CHR ''0''" by (simp add: c_tolower_digit)
    then have "x = CHR ''0''" by (simp add: c_tolower_digit)
    with vowels_not_special[OF that(1)] show False by simp
  qed
  have c: "c_tolower x \<noteq> c_tolower y" if "x \<in> consonants_y \<union> {CHR 0x00}" "y = CHR ''1''" for x y
  proof
    assume "c_tolower x = c_tolower y"
    with that(2) have "c_tolower x = CHR ''1''" by (simp add: c_tolower_digit)
    then have "x = CHR ''1''" by (simp add: c_tolower_digit)
    with consonants_not_special[OF that(1)] show False by simp
  qed
  show ?thesis
    unfolding matches_unfold
    using v[of a b] v[of b a] c[of a b] c[of b a]
    by (simp del: Un_iff insert_iff) metis
qed

text \<open>
  Claim C3, as the code has it. For every pair of characters the matcher returns 1 (loose)
  exactly when neither is \<open>#\<close> and one is \<open>.\<close>, or one is \<open>0\<close> and the other a vowel of
  \<open>aeiouy\<close>, or one is \<open>1\<close> and the other one of the 21 letters \<open>bcdfghjklmnpqrstvwxyz\<close>
  (so \<open>y\<close> is both a vowel and a consonant; the NUL character, which \<^verbatim>\<open>strchr\<close> finds in
  every string, pairs with \<open>0\<close> and \<open>1\<close> too); it returns 2 (exact) exactly when neither
  is \<open>#\<close> or \<open>.\<close> and the two are equal after lower-casing, that is the same letter up to
  case or the same character; and it returns 0 in every other case.
\<close>

theorem matches_table:
  "(matches a b = 1 \<longleftrightarrow>
      a \<noteq> CHR ''#'' \<and> b \<noteq> CHR ''#'' \<and>
      (a = CHR ''.'' \<or> b = CHR ''.'' \<or>
       (a = CHR ''0'' \<and> b \<in> vowels \<union> {CHR 0x00}) \<or>
       (b = CHR ''0'' \<and> a \<in> vowels \<union> {CHR 0x00}) \<or>
       (a = CHR ''1'' \<and> b \<in> consonants_y \<union> {CHR 0x00}) \<or>
       (b = CHR ''1'' \<and> a \<in> consonants_y \<union> {CHR 0x00}))) \<and>
   (matches a b = 2 \<longleftrightarrow>
      a \<noteq> CHR ''#'' \<and> b \<noteq> CHR ''#'' \<and> a \<noteq> CHR ''.'' \<and> b \<noteq> CHR ''.'' \<and>
      (a = b \<or> (c_isalpha a \<and> c_isalpha b \<and> c_tolower a = c_tolower b))) \<and>
   (matches a b \<noteq> 1 \<and> matches a b \<noteq> 2 \<longleftrightarrow> matches a b = 0)"
proof -
  have "matches a b = 2 \<longleftrightarrow>
      a \<noteq> CHR ''#'' \<and> b \<noteq> CHR ''#'' \<and> a \<noteq> CHR ''.'' \<and> b \<noteq> CHR ''.'' \<and>
      (a = b \<or> (c_isalpha a \<and> c_isalpha b \<and> c_tolower a = c_tolower b))"
    using c_tolower_eq_iff[of a b] by (simp only: matches_exact_iff)
  moreover have "matches a b \<noteq> 1 \<and> matches a b \<noteq> 2 \<longleftrightarrow> matches a b = 0"
    using matches_range[of a b] by auto
  ultimately show ?thesis
    using matches_loose_iff[of a b] by blast
qed

text \<open>
  Claim C3 as stated fails at the pair (\<open>y\<close>, \<open>1\<close>): the specification's table gives no
  match, since \<open>y\<close> is a vowel there and not a consonant; the matcher gives a loose match.
\<close>

theorem matches_y_counterexample:
  "matches CHR ''y'' CHR ''1'' = 1 \<and> spec_matches CHR ''y'' CHR ''1'' = 0"
  by (simp add: matches_def strchr_def spec_matches_def vowels_def consonants_def
        consonants_y_def c_isalpha_def)

lemma entry_fits_across_loop_eq:
  "entry_fits_across_loop grid w i j word ks e =
     (if \<exists>k\<in>set ks. matches (grid ! (j * w + (i + k))) (word ! k) = 0 then 0
      else if e \<and> (\<forall>k\<in>set ks. matches (grid ! (j * w + (i + k))) (word ! k) = 2) then 2
      else 1)"
proof (induction ks arbitrary: e)
  case Nil
  show ?case by simp
next
  case (Cons k ks)
  show ?case
    using matches_range[of "grid ! (j * w + (i + k))" "word ! k"]
    by (auto simp: Cons.IH Let_def)
qed

lemma entry_fits_down_loop_eq:
  "entry_fits_down_loop grid w i j word ks e =
     (if \<exists>k\<in>set ks. matches (grid ! ((j + k) * w + i)) (word ! k) = 0 then 0
      else if e \<and> (\<forall>k\<in>set ks. matches (grid ! ((j + k) * w + i)) (word ! k) = 2) then 2
      else 1)"
proof (induction ks arbitrary: e)
  case Nil
  show ?case by simp
next
  case (Cons k ks)
  show ?case
    using matches_range[of "grid ! ((j + k) * w + i)" "word ! k"]
    by (auto simp: Cons.IH Let_def)
qed

lemma cell_at_across: "cell_at grid w (run_pos Across i j (int k)) = grid ! (j * w + (i + k))"
  by (simp add: cell_at_def nat_add_distrib nat_mult_distrib flip: of_nat_mult of_nat_add)

lemma cell_at_down: "cell_at grid w (run_pos Down i j (int k)) = grid ! ((j + k) * w + i)"
  by (simp add: cell_at_def flip: of_nat_mult of_nat_add)

lemma within_across: "i < w \<Longrightarrow> j < h \<Longrightarrow> run_within Across w h i j wlen \<longleftrightarrow> i + wlen \<le> w"
  unfolding run_within_def on_grid_def
  apply (cases wlen)
   apply simp
  apply auto
  done

lemma within_down: "i < w \<Longrightarrow> j < h \<Longrightarrow> run_within Down w h i j wlen \<longleftrightarrow> j + wlen \<le> h"
  unfolding run_within_def on_grid_def
  apply (cases wlen)
   apply simp
  apply auto
  done

lemma nat_cell_before_across: "0 < i \<Longrightarrow> nat (int j * int w + (int i - 1)) = j * w + (i - 1)"
proof -
  assume "0 < i"
  then have "int j * int w + (int i - 1) = int (j * w + (i - 1))" by (simp add: of_nat_diff)
  then show ?thesis by (simp only: nat_int)
qed

lemma nat_cell_before_down: "0 < j \<Longrightarrow> nat ((int j - 1) * int w + int i) = (j - 1) * w + i"
proof -
  assume "0 < j"
  then have "(int j - 1) * int w + int i = int ((j - 1) * w + i)" by (simp add: of_nat_diff)
  then show ?thesis by (simp only: nat_int)
qed

lemma before_across:
  "i < w \<Longrightarrow> j < h \<Longrightarrow>
   off_grid_or_black grid w h (run_pos Across i j (- 1)) \<longleftrightarrow>
     \<not> (i > 0 \<and> grid ! (j * w + (i - 1)) \<noteq> CHR ''#'')"
proof (cases "i = 0")
  case True
  then show ?thesis by (simp add: off_grid_or_black_def on_grid_def)
next
  case False
  assume "i < w" "j < h"
  with False show ?thesis
    by (simp add: off_grid_or_black_def on_grid_def cell_at_def nat_cell_before_across del: One_nat_def)
qed

lemma after_across:
  "j < h \<Longrightarrow> i + wlen \<le> w \<Longrightarrow>
   off_grid_or_black grid w h (run_pos Across i j (int wlen)) \<longleftrightarrow>
     \<not> (i + wlen < w \<and> grid ! (j * w + (i + wlen)) \<noteq> CHR ''#'')"
  using cell_at_across[of grid w i j wlen]
  by (auto simp: off_grid_or_black_def on_grid_def)

lemma before_down:
  "i < w \<Longrightarrow> j < h \<Longrightarrow>
   off_grid_or_black grid w h (run_pos Down i j (- 1)) \<longleftrightarrow>
     \<not> (j > 0 \<and> grid ! ((j - 1) * w + i) \<noteq> CHR ''#'')"
proof (cases "j = 0")
  case True
  then show ?thesis by (simp add: off_grid_or_black_def on_grid_def)
next
  case False
  assume "i < w" "j < h"
  with False show ?thesis
    by (simp add: off_grid_or_black_def on_grid_def cell_at_def nat_cell_before_down del: One_nat_def)
qed

lemma after_down:
  "i < w \<Longrightarrow> j + wlen \<le> h \<Longrightarrow>
   off_grid_or_black grid w h (run_pos Down i j (int wlen)) \<longleftrightarrow>
     \<not> (j + wlen < h \<and> grid ! ((j + wlen) * w + i) \<noteq> CHR ''#'')"
  using cell_at_down[of grid w i j wlen]
  by (auto simp: off_grid_or_black_def on_grid_def)

lemma entry_fits_across_unfold:
  assumes "i < w" "j < h"
  shows "entry_fits_across grid w h i j word wlen =
     (if \<not> (run_within Across w h i j wlen \<and> run_bounded Across grid w h i j wlen) then 0
      else if \<exists>k<wlen. cell_match Across grid w i j word k = 0 then 0
      else if \<forall>k<wlen. cell_match Across grid w i j word k = 2 then 2 else 1)"
proof (cases "i + wlen \<le> w")
  case False
  then show ?thesis using assms by (simp add: entry_fits_across_def within_across)
next
  case True
  have W: "run_within Across w h i j wlen" using assms True by (simp add: within_across)
  have B: "run_bounded Across grid w h i j wlen \<longleftrightarrow>
            \<not> (i > 0 \<and> grid ! (j * w + (i - 1)) \<noteq> CHR ''#'') \<and>
            \<not> (i + wlen < w \<and> grid ! (j * w + (i + wlen)) \<noteq> CHR ''#'')"
    by (simp only: run_bounded_def before_across[OF assms] after_across[OF assms(2) True])
  have M: "cell_match Across grid w i j word k = matches (grid ! (j * w + (i + k))) (word ! k)" for k
    by (simp only: cell_match_def cell_at_across)
  have S: "(\<exists>k\<in>set [0..<wlen]. P k) \<longleftrightarrow> (\<exists>k<wlen. P k)"
          "(\<forall>k\<in>set [0..<wlen]. P k) \<longleftrightarrow> (\<forall>k<wlen. P k)" for P
    by auto
  define P where "P \<longleftrightarrow> i > 0 \<and> grid ! (j * w + (i - 1)) \<noteq> CHR ''#''"
  define Q where "Q \<longleftrightarrow> i + wlen < w \<and> grid ! (j * w + (i + wlen)) \<noteq> CHR ''#''"
  have B': "run_bounded Across grid w h i j wlen \<longleftrightarrow> \<not> P \<and> \<not> Q"
    unfolding B P_def Q_def ..
  consider (p) "P" | (q) "\<not> P" "Q" | (ok) "\<not> P" "\<not> Q" by blast
  then show ?thesis
  proof cases
    case p
    then have "entry_fits_across grid w h i j word wlen = 0"
      using True unfolding entry_fits_across_def P_def by auto
    then show ?thesis using p B' by simp
  next
    case q
    then have "entry_fits_across grid w h i j word wlen = 0"
      using True unfolding entry_fits_across_def P_def Q_def by auto
    then show ?thesis using q B' by simp
  next
    case ok
    then have "entry_fits_across grid w h i j word wlen =
                 entry_fits_across_loop grid w i j word [0..<wlen] True"
      using True unfolding entry_fits_across_def P_def Q_def by auto
    then show ?thesis
      unfolding entry_fits_across_loop_eq M S using ok B' W by auto
  qed
qed

lemma entry_fits_down_unfold:
  assumes "i < w" "j < h"
  shows "entry_fits_down grid w h i j word wlen =
     (if \<not> (run_within Down w h i j wlen \<and> run_bounded Down grid w h i j wlen) then 0
      else if \<exists>k<wlen. cell_match Down grid w i j word k = 0 then 0
      else if \<forall>k<wlen. cell_match Down grid w i j word k = 2 then 2 else 1)"
proof (cases "j + wlen \<le> h")
  case False
  then show ?thesis using assms by (simp add: entry_fits_down_def within_down)
next
  case True
  have W: "run_within Down w h i j wlen" using assms True by (simp add: within_down)
  have B: "run_bounded Down grid w h i j wlen \<longleftrightarrow>
            \<not> (j > 0 \<and> grid ! ((j - 1) * w + i) \<noteq> CHR ''#'') \<and>
            \<not> (j + wlen < h \<and> grid ! ((j + wlen) * w + i) \<noteq> CHR ''#'')"
    by (simp only: run_bounded_def before_down[OF assms] after_down[OF assms(1) True])
  have M: "cell_match Down grid w i j word k = matches (grid ! ((j + k) * w + i)) (word ! k)" for k
    by (simp only: cell_match_def cell_at_down)
  have S: "(\<exists>k\<in>set [0..<wlen]. P k) \<longleftrightarrow> (\<exists>k<wlen. P k)"
          "(\<forall>k\<in>set [0..<wlen]. P k) \<longleftrightarrow> (\<forall>k<wlen. P k)" for P
    by auto
  define P where "P \<longleftrightarrow> j > 0 \<and> grid ! ((j - 1) * w + i) \<noteq> CHR ''#''"
  define Q where "Q \<longleftrightarrow> j + wlen < h \<and> grid ! ((j + wlen) * w + i) \<noteq> CHR ''#''"
  have B': "run_bounded Down grid w h i j wlen \<longleftrightarrow> \<not> P \<and> \<not> Q"
    unfolding B P_def Q_def ..
  consider (p) "P" | (q) "\<not> P" "Q" | (ok) "\<not> P" "\<not> Q" by blast
  then show ?thesis
  proof cases
    case p
    then have "entry_fits_down grid w h i j word wlen = 0"
      using True unfolding entry_fits_down_def P_def by auto
    then show ?thesis using p B' by simp
  next
    case q
    then have "entry_fits_down grid w h i j word wlen = 0"
      using True unfolding entry_fits_down_def P_def Q_def by auto
    then show ?thesis using q B' by simp
  next
    case ok
    then have "entry_fits_down grid w h i j word wlen =
                 entry_fits_down_loop grid w i j word [0..<wlen] True"
      using True unfolding entry_fits_down_def P_def Q_def by auto
    then show ?thesis
      unfolding entry_fits_down_loop_eq M S using ok B' W by auto
  qed
qed

lemma entry_fits_unfold:
  assumes "i < w" "j < h"
  shows "entry_fits d grid w h i j word wlen =
     (if \<not> (run_within d w h i j wlen \<and> run_bounded d grid w h i j wlen) then 0
      else if \<exists>k<wlen. cell_match d grid w i j word k = 0 then 0
      else if \<forall>k<wlen. cell_match d grid w i j word k = 2 then 2 else 1)"
  by (cases d) (simp_all only: entry_fits_def orientation.case
        entry_fits_across_unfold[OF assms] entry_fits_down_unfold[OF assms])

text \<open>
  Claim C4. At a grid position \<open>(i, j)\<close> and for either orientation, the run-fit test
  accepts (returns non-zero) exactly when the \<open>wlen\<close> cells of the run lie within the grid,
  the cell before the run and the cell after it are each off-grid or black, and every
  word letter matches its grid cell; and it returns 2 rather than 1 exactly when, in
  addition, every per-cell match is exact.
\<close>

theorem entry_fits_characterisation:
  assumes "i < w" "j < h"
  shows "(entry_fits d grid w h i j word wlen \<noteq> 0 \<longleftrightarrow>
            run_within d w h i j wlen \<and> run_bounded d grid w h i j wlen \<and>
            (\<forall>k<wlen. cell_match d grid w i j word k \<noteq> 0)) \<and>
         (entry_fits d grid w h i j word wlen = 2 \<longleftrightarrow>
            run_within d w h i j wlen \<and> run_bounded d grid w h i j wlen \<and>
            (\<forall>k<wlen. cell_match d grid w i j word k = 2)) \<and>
         entry_fits d grid w h i j word wlen \<in> {0, 1, 2}"
proof -
  have "cell_match d grid w i j word k = 2 \<Longrightarrow> cell_match d grid w i j word k \<noteq> 0" for k
    by simp
  then show ?thesis
    unfolding entry_fits_unfold[OF assms] by auto
qed


theorem entry_fits_characterisation_witness:
  "(0::nat) < 3 \<and> (0::nat) < 1 \<and>
   entry_fits Across ''b0g'' 3 1 0 0 ''bag'' 3 = 1 \<and>
   run_within Across 3 1 0 0 3 \<and> run_bounded Across ''b0g'' 3 1 0 0 3 \<and>
   \<not> (\<exists>k<3. cell_match Across ''b0g'' 3 0 0 ''bag'' k = 0) \<and>
   \<not> (\<forall>k<3. cell_match Across ''b0g'' 3 0 0 ''bag'' k = 2)"
proof -
  have e: "entry_fits Across ''b0g'' 3 1 0 0 ''bag'' 3 = 1"
    by (simp add: entry_fits_def entry_fits_across_def upt_rec matches_def strchr_def
          c_tolower_def)
  show ?thesis
    using entry_fits_characterisation[of 0 3 0 1 Across "''b0g''" "''bag''" 3] e
    by simp
qed

lemma is_fixed_value_legal:
  "legal_cell c \<Longrightarrow> is_fixed_value c = Some (\<not> is_open c)"
  by (auto simp: legal_cell_def is_fixed_value_def is_open_def c_isalpha_def)

lemma c_tolower_lower: "c_isalpha c \<Longrightarrow> c_tolower c \<in> set ''abcdefghijklmnopqrstuvwxyz''"
  unfolding c_isalpha_def c_tolower_def by auto

lemma lower_idx:
  "c \<in> set ''abcdefghijklmnopqrstuvwxyz'' \<Longrightarrow> (of_char c :: nat) - of_char CHR ''a'' < 26"
  by auto

lemma ch2idx_lt: "ch2idx c < 26"
  unfolding ch2idx_def using lower_idx[OF c_tolower_lower] by simp

lemma cell_to_slice_loop_eq:
  assumes "\<forall>q<n. legal_cell (grid ! q)" "cell < n"
  shows "a \<le> cell \<Longrightarrow>
     cell_to_slice_loop grid cell [a..<n] u =
       Some (u + length (filter (\<lambda>q. is_open (grid ! q)) [a..<cell]))"
proof (induction "cell - a" arbitrary: a u)
  case 0
  then have "a = cell" by simp
  then show ?case using assms(2) by (simp add: upt_rec[of cell n])
next
  case (Suc d)
  then have lt: "a < cell" "a < n" using assms(2) by auto
  have IH: "cell_to_slice_loop grid cell [Suc a..<n] u' =
       Some (u' + length (filter (\<lambda>q. is_open (grid ! q)) [Suc a..<cell]))" for u'
    using Suc(1)[of "Suc a" u'] Suc(2) lt by simp
  have leg: "is_fixed_value (grid ! a) = Some (\<not> is_open (grid ! a))"
    using assms(1) lt by (simp add: is_fixed_value_legal)
  show ?case
    using lt by (simp add: upt_rec[of a n] upt_rec[of a cell] IH leg)
qed

lemma CELL_TO_SLICE_eq:
  assumes "valid_grid grid w h" "cell < w * h" "UseNaiveMethod cfg \<or> is_open (grid ! cell)"
  shows "CELL_TO_SLICE cfg cell \<lparr>info_w = w, info_h = h, info_grid = grid\<rparr> =
           Some (slice_index cfg grid cell)"
proof (cases "UseNaiveMethod cfg")
  case True
  then show ?thesis by (simp add: CELL_TO_SLICE_def slice_index_def)
next
  case False
  have leg: "\<forall>q<w * h. legal_cell (grid ! q)"
    using assms(1) by (simp add: valid_grid_def list_all_length)
  have "is_fixed_value (grid ! cell) = Some False"
    using leg assms(2,3) False by (simp add: is_fixed_value_legal)
  then show ?thesis
    using False assms(2) cell_to_slice_loop_eq[OF leg assms(2), of 0 0]
    by (simp add: CELL_TO_SLICE_def slice_index_def)
qed

lemma set_across_block: "i < 26 \<Longrightarrow> set (across_block s i) = across_columns s i"
  unfolding across_block_def across_columns_def
  by (auto simp: image_iff)

lemma set_down_block: "i < 26 \<Longrightarrow> set (down_block s i) = down_columns s i"
  unfolding down_block_def down_columns_def
  by (auto simp: image_iff)

lemma add_row_across_loop_eq:
  assumes "valid_grid grid w h"
    and "\<forall>k\<in>set ks. j * w + (i + k) < w * h"
  shows "add_row_across_loop cfg \<lparr>info_w = w, info_h = h, info_grid = grid\<rparr> i j word ks constraint =
     Some (constraint @ concat (map (\<lambda>k. across_block (slice_index cfg grid (j * w + (i + k))) (ch2idx (word ! k)))
             (filter (\<lambda>k. UseNaiveMethod cfg \<or> is_open (grid ! (j * w + (i + k)))) ks)))"
  using assms(2)
proof (induction ks arbitrary: constraint)
  case Nil
  show ?case by simp
next
  case (Cons k ks)
  have lt: "j * w + (i + k) < w * h" using Cons.prems by simp
  have leg: "legal_cell (grid ! (j * w + (i + k)))"
    using assms(1) lt by (simp add: valid_grid_def list_all_length)
  have IH: "add_row_across_loop cfg \<lparr>info_w = w, info_h = h, info_grid = grid\<rparr> i j word ks c =
     Some (c @ concat (map (\<lambda>k. across_block (slice_index cfg grid (j * w + (i + k))) (ch2idx (word ! k)))
             (filter (\<lambda>k. UseNaiveMethod cfg \<or> is_open (grid ! (j * w + (i + k)))) ks)))" for c
    using Cons.IH Cons.prems by simp
  show ?case
  proof (cases "UseNaiveMethod cfg \<or> is_open (grid ! (j * w + (i + k)))")
    case True
    from CELL_TO_SLICE_eq[OF assms(1) lt True] True
    show ?thesis
      by (auto simp: IH is_fixed_value_legal[OF leg] across_block_def Let_def)
  next
    case False
    then show ?thesis
      by (simp add: IH is_fixed_value_legal[OF leg])
  qed
qed

lemma add_row_down_loop_eq:
  assumes "valid_grid grid w h"
    and "\<forall>k\<in>set ks. (j + k) * w + i < w * h"
  shows "add_row_down_loop cfg \<lparr>info_w = w, info_h = h, info_grid = grid\<rparr> i j word ks constraint =
     Some (constraint @ concat (map (\<lambda>k. down_block (slice_index cfg grid ((j + k) * w + i)) (ch2idx (word ! k)))
             (filter (\<lambda>k. UseNaiveMethod cfg \<or> is_open (grid ! ((j + k) * w + i))) ks)))"
  using assms(2)
proof (induction ks arbitrary: constraint)
  case Nil
  show ?case by simp
next
  case (Cons k ks)
  have lt: "(j + k) * w + i < w * h" using Cons.prems by simp
  have leg: "legal_cell (grid ! ((j + k) * w + i))"
    using assms(1) lt by (simp add: valid_grid_def list_all_length)
  have IH: "add_row_down_loop cfg \<lparr>info_w = w, info_h = h, info_grid = grid\<rparr> i j word ks c =
     Some (c @ concat (map (\<lambda>k. down_block (slice_index cfg grid ((j + k) * w + i)) (ch2idx (word ! k)))
             (filter (\<lambda>k. UseNaiveMethod cfg \<or> is_open (grid ! ((j + k) * w + i))) ks)))" for c
    using Cons.IH Cons.prems by simp
  show ?case
  proof (cases "UseNaiveMethod cfg \<or> is_open (grid ! ((j + k) * w + i))")
    case True
    from CELL_TO_SLICE_eq[OF assms(1) lt True] True
    show ?thesis
      by (auto simp: IH is_fixed_value_legal[OF leg] down_block_def Let_def)
  next
    case False
    then show ?thesis
      by (simp add: IH is_fixed_value_legal[OF leg])
  qed
qed

lemma cell_lt: "i < w \<Longrightarrow> j < h \<Longrightarrow> j * w + i < w * (h::nat)"
proof -
  assume a: "i < w" "j < h"
  then have "j * w + i < Suc j * w" by simp
  also have "Suc j * w \<le> h * w" using a(2) by (intro mult_le_mono1) simp
  finally show ?thesis by (simp add: mult.commute)
qed

lemma length_across_block: "length (across_block s i) = 27"
  by (simp add: across_block_def)

lemma length_down_block: "length (down_block s i) = 27"
  by (simp add: down_block_def)

lemma length_concat_blocks:
  "(\<And>k. length (f k) = 27) \<Longrightarrow> length (concat (map f ks)) = length ks * 27"
  by (induction ks) auto

lemma block_range_across: "c \<in> set (across_block s i) \<Longrightarrow> 54 * s \<le> c \<and> c < 54 * s + 54"
  by (auto simp: across_block_def)

lemma block_range_down: "c \<in> set (down_block s i) \<Longrightarrow> 54 * s \<le> c \<and> c < 54 * s + 54"
  by (auto simp: down_block_def)

lemma distinct_across_block: "distinct (across_block s i)"
  unfolding across_block_def
  by (auto simp: distinct_map inj_on_def split: if_splits) presburger

lemma distinct_down_block: "distinct (down_block s i)"
  unfolding down_block_def
  by (auto simp: distinct_map inj_on_def split: if_splits)

lemma distinct_concat_blocks:
  assumes "\<And>k. distinct (f k)"
    and "\<And>k c. c \<in> set (f k) \<Longrightarrow> 54 * g k \<le> c \<and> c < 54 * g k + (54::nat)"
    and "distinct (map g ks)"
  shows "distinct (concat (map f ks))"
  using assms(3)
proof (induction ks)
  case Nil
  show ?case by simp
next
  case (Cons k ks)
  have "set (f k) \<inter> set (f k') = {}" if "k' \<in> set ks" for k'
  proof -
    from Cons.prems that have "g k \<noteq> g k'" by auto
    then show ?thesis using assms(2)[of _ k] assms(2)[of _ k'] by fastforce
  qed
  then show ?case using Cons assms(1) by auto
qed

lemma slice_index_mono:
  assumes "c1 < c2" "UseNaiveMethod cfg \<or> is_open (grid ! c1)"
  shows "slice_index cfg grid c1 < slice_index cfg grid c2"
proof (cases "UseNaiveMethod cfg")
  case True
  then show ?thesis using assms(1) by (simp add: slice_index_def)
next
  case False
  with assms(2) have o: "is_open (grid ! c1)" by simp
  have "[0..<c2] = [0..<c1] @ c1 # [Suc c1..<c2]"
  proof -
    have "[0..<c2] = [0..<c1] @ [c1..<c2]"
      using assms(1) upt_add_eq_append[of 0 c1 "c2 - c1"] by simp
    then show ?thesis using assms(1) by (simp add: upt_rec[of c1 c2])
  qed
  then show ?thesis using False o by (simp add: slice_index_def)
qed

lemma entry_fits_across_bound: "entry_fits_across grid w h i j word wlen \<noteq> 0 \<Longrightarrow> i + wlen \<le> w"
  by (simp add: entry_fits_across_def split: if_splits)

lemma entry_fits_down_bound: "entry_fits_down grid w h i j word wlen \<noteq> 0 \<Longrightarrow> j + wlen \<le> h"
  by (simp add: entry_fits_down_def split: if_splits)

lemma add_row_across_eq:
  assumes v: "valid_grid grid w h" and j: "j < h" and b: "i + wlen \<le> w"
    and m: "wlen \<le> MAX_WORDLEN"
  shows "\<exists>row. add_row_across cfg \<lparr>info_w = w, info_h = h, info_grid = grid\<rparr> i j word wlen = Some row \<and>
           distinct row \<and>
           set row = (\<Union>k\<in>{k. k < wlen \<and> (UseNaiveMethod cfg \<or> is_open (grid ! (j * w + (i + k))))}.
                        across_columns (slice_index cfg grid (j * w + (i + k))) (ch2idx (word ! k)))"
proof -
  let ?P = "\<lambda>k. UseNaiveMethod cfg \<or> is_open (grid ! (j * w + (i + k)))"
  let ?g = "\<lambda>k. slice_index cfg grid (j * w + (i + k))"
  let ?f = "\<lambda>k. across_block (?g k) (ch2idx (word ! k))"
  let ?row = "concat (map ?f (filter ?P [0..<wlen]))"
  have rng: "\<forall>k\<in>set [0..<wlen]. j * w + (i + k) < w * h"
    using cell_lt[OF _ j] b by auto
  have loop: "add_row_across_loop cfg \<lparr>info_w = w, info_h = h, info_grid = grid\<rparr> i j word [0..<wlen] [] = Some ?row"
    using add_row_across_loop_eq[OF v rng, where cfg = cfg and word = word and constraint = "[]"] by simp
  have len: "UseNaiveMethod cfg \<Longrightarrow> length ?row = wlen * 27"
    by (simp add: length_concat_blocks[where f = ?f, OF length_across_block])
  have "length ?row = length (filter ?P [0..<wlen]) * 27"
    by (simp add: length_concat_blocks[where f = ?f, OF length_across_block])
  also have "\<dots> \<le> wlen * 27"
    using length_filter_le[of ?P "[0..<wlen]"] by simp
  also have "\<dots> \<le> MAX_WORDLEN * 27"
    using m by simp
  finally have cap: "length ?row \<le> MAX_WORDLEN * 27" .
  have r: "add_row_across cfg \<lparr>info_w = w, info_h = h, info_grid = grid\<rparr> i j word wlen = Some ?row"
    using len cap by (auto simp: add_row_across_def loop)
  have inj: "distinct (map ?g (filter ?P [0..<wlen]))"
  proof -
    have "?g k1 < ?g k2" if "k1 < k2" "?P k1" for k1 k2
      using slice_index_mono[of "j * w + (i + k1)" "j * w + (i + k2)" cfg grid] that by simp
    then have lt: "k1 \<noteq> k2 \<Longrightarrow> ?P k1 \<Longrightarrow> ?P k2 \<Longrightarrow> ?g k1 \<noteq> ?g k2" for k1 k2
      by (metis less_irrefl linorder_neqE_nat)
    have "inj_on ?g (set (filter ?P [0..<wlen]))"
    proof (rule inj_onI)
      fix x y
      assume "x \<in> set (filter ?P [0..<wlen])" "y \<in> set (filter ?P [0..<wlen])" "?g x = ?g y"
      then have "?P x" "?P y" "?g x = ?g y" by simp_all
      then show "x = y" using lt[of x y] by blast
    qed
    then show ?thesis by (simp add: distinct_map)
  qed
  have d: "distinct ?row"
    by (rule distinct_concat_blocks[where g = ?g, OF distinct_across_block _ inj])
       (rule block_range_across)
  have s: "set ?row = (\<Union>k\<in>{k. k < wlen \<and> ?P k}. across_columns (?g k) (ch2idx (word ! k)))"
    by (auto simp: set_across_block[OF ch2idx_lt])
  show ?thesis using r d s by blast
qed

lemma add_row_down_eq:
  assumes v: "valid_grid grid w h" and i: "i < w" and b: "j + wlen \<le> h"
    and m: "wlen \<le> MAX_WORDLEN"
  shows "\<exists>row. add_row_down cfg \<lparr>info_w = w, info_h = h, info_grid = grid\<rparr> i j word wlen = Some row \<and>
           distinct row \<and>
           set row = (\<Union>k\<in>{k. k < wlen \<and> (UseNaiveMethod cfg \<or> is_open (grid ! ((j + k) * w + i)))}.
                        down_columns (slice_index cfg grid ((j + k) * w + i)) (ch2idx (word ! k)))"
proof -
  let ?P = "\<lambda>k. UseNaiveMethod cfg \<or> is_open (grid ! ((j + k) * w + i))"
  let ?g = "\<lambda>k. slice_index cfg grid ((j + k) * w + i)"
  let ?f = "\<lambda>k. down_block (?g k) (ch2idx (word ! k))"
  let ?row = "concat (map ?f (filter ?P [0..<wlen]))"
  have rng: "\<forall>k\<in>set [0..<wlen]. (j + k) * w + i < w * h"
    using cell_lt[OF i] b by auto
  have loop: "add_row_down_loop cfg \<lparr>info_w = w, info_h = h, info_grid = grid\<rparr> i j word [0..<wlen] [] = Some ?row"
    using add_row_down_loop_eq[OF v rng, where cfg = cfg and word = word and constraint = "[]"] by simp
  have len: "UseNaiveMethod cfg \<Longrightarrow> length ?row = wlen * 27"
    by (simp add: length_concat_blocks[where f = ?f, OF length_down_block])
  have "length ?row = length (filter ?P [0..<wlen]) * 27"
    by (simp add: length_concat_blocks[where f = ?f, OF length_down_block])
  also have "\<dots> \<le> wlen * 27"
    using length_filter_le[of ?P "[0..<wlen]"] by simp
  also have "\<dots> \<le> MAX_WORDLEN * 27"
    using m by simp
  finally have cap: "length ?row \<le> MAX_WORDLEN * 27" .
  have r: "add_row_down cfg \<lparr>info_w = w, info_h = h, info_grid = grid\<rparr> i j word wlen = Some ?row"
    using len cap by (auto simp: add_row_down_def loop)
  have inj: "distinct (map ?g (filter ?P [0..<wlen]))"
  proof -
    have "?g k1 < ?g k2" if "k1 < k2" "?P k1" for k1 k2
    proof -
      have "(j + k1) * w + i < (j + k2) * w + i"
        using that(1) i by (simp add: mult_less_mono1) 
      then show ?thesis
        using slice_index_mono[of "(j + k1) * w + i" "(j + k2) * w + i" cfg grid] that by simp
    qed
    then have lt: "k1 \<noteq> k2 \<Longrightarrow> ?P k1 \<Longrightarrow> ?P k2 \<Longrightarrow> ?g k1 \<noteq> ?g k2" for k1 k2
      by (metis less_irrefl linorder_neqE_nat)
    have "inj_on ?g (set (filter ?P [0..<wlen]))"
    proof (rule inj_onI)
      fix x y
      assume "x \<in> set (filter ?P [0..<wlen])" "y \<in> set (filter ?P [0..<wlen])" "?g x = ?g y"
      then have "?P x" "?P y" "?g x = ?g y" by simp_all
      then show "x = y" using lt[of x y] by blast
    qed
    then show ?thesis by (simp add: distinct_map)
  qed
  have d: "distinct ?row"
    by (rule distinct_concat_blocks[where g = ?g, OF distinct_down_block _ inj])
       (rule block_range_down)
  have s: "set ?row = (\<Union>k\<in>{k. k < wlen \<and> ?P k}. down_columns (?g k) (ch2idx (word ! k)))"
    by (auto simp: set_down_block[OF ch2idx_lt])
  show ?thesis using r d s by blast
qed

lemma alphabet_index:
  "l \<in> set alphabet \<Longrightarrow>
     (of_char l :: nat) - of_char CHR ''a'' = length (takeWhile (\<lambda>x. x \<noteq> l) alphabet)"
proof -
  have "list_all (\<lambda>l. (of_char l :: nat) - of_char CHR ''a'' =
                       length (takeWhile (\<lambda>x. x \<noteq> l) alphabet)) alphabet"
    by code_simp
  then show "l \<in> set alphabet \<Longrightarrow>
     (of_char l :: nat) - of_char CHR ''a'' = length (takeWhile (\<lambda>x. x \<noteq> l) alphabet)"
    by (simp add: list_all_iff)
qed

lemma ch2idx_letter_index: "ch2idx c = letter_index c"
proof (cases "c_isalpha c")
  case True
  from c_tolower_lower[OF this] have "c_tolower c \<in> set alphabet"
    by (simp only: alphabet_def)
  from alphabet_index[OF this] True show ?thesis
    by (simp add: ch2idx_def letter_index_def)
next
  case False
  have "CHR ''x'' \<in> set alphabet" by (simp add: alphabet_def)
  from alphabet_index[OF this] False show ?thesis
    by (simp add: ch2idx_def letter_index_def)
qed

lemma alphabet_nth:
  "l \<in> set alphabet \<Longrightarrow>
     length (takeWhile (\<lambda>x. x \<noteq> l) alphabet) < 26 \<and>
     alphabet ! length (takeWhile (\<lambda>x. x \<noteq> l) alphabet) = l"
proof -
  have "list_all (\<lambda>l. length (takeWhile (\<lambda>x. x \<noteq> l) alphabet) < 26 \<and>
                       alphabet ! length (takeWhile (\<lambda>x. x \<noteq> l) alphabet) = l) alphabet"
    by code_simp
  then show "l \<in> set alphabet \<Longrightarrow>
     length (takeWhile (\<lambda>x. x \<noteq> l) alphabet) < 26 \<and>
     alphabet ! length (takeWhile (\<lambda>x. x \<noteq> l) alphabet) = l"
    by (simp add: list_all_iff)
qed

lemma letter_index_alphabet:
  "letter_index c < 26 \<and>
   alphabet ! letter_index c = (if c_isalpha c then c_tolower c else CHR ''x'')"
proof (cases "c_isalpha c")
  case True
  from c_tolower_lower[OF this] have "c_tolower c \<in> set alphabet"
    by (simp only: alphabet_def)
  from alphabet_nth[OF this] True show ?thesis
    by (simp add: letter_index_def)
next
  case False
  have "CHR ''x'' \<in> set alphabet" by (simp add: alphabet_def)
  from alphabet_nth[OF this] False show ?thesis
    by (simp add: letter_index_def)
qed

text \<open>
  Claim C2. For a valid grid and an admissible placement (the run-fit test accepts) of a
  word of at most 15 letters, the row handed to the matrix exists (no assertion fails and
  the array is not overrun), has no column twice, and its columns are exactly, for each
  run cell that is open (every run cell in naive mode) with slice \<open>s\<close> and with \<open>i\<close> the
  letter index of the word's character in that cell: for Across \<open>54 s + 2 m + 1\<close> for
  every \<open>m \<noteq> i\<close>, \<open>54 s + 2 i\<close> and \<open>54 s + 52\<close>; for Down \<open>54 s + 2 m\<close> for every
  \<open>m \<noteq> i\<close>, \<open>54 s + 2 i + 1\<close> and \<open>54 s + 53\<close>. Fixed run cells in compressed mode
  contribute nothing. The letter index is below 26 and is the position in the alphabet of
  the lower-cased character (of \<open>x\<close> for a character that is no letter).
\<close>

theorem add_row_columns:
  assumes "valid_grid grid w h" "i < w" "j < h" "wlen \<le> MAX_WORDLEN"
  shows "(entry_fits_across grid w h i j word wlen \<noteq> 0 \<longrightarrow>
           (\<exists>row. add_row_across cfg \<lparr>info_w = w, info_h = h, info_grid = grid\<rparr> i j word wlen
                      = Some row \<and>
              distinct row \<and>
              set row =
                (\<Union>k\<in>{k. k < wlen \<and> (UseNaiveMethod cfg \<or> is_open (grid ! (j * w + (i + k))))}.
                   across_columns (slice_index cfg grid (j * w + (i + k)))
                     (letter_index (word ! k))))) \<and>
         (entry_fits_down grid w h i j word wlen \<noteq> 0 \<longrightarrow>
           (\<exists>row. add_row_down cfg \<lparr>info_w = w, info_h = h, info_grid = grid\<rparr> i j word wlen
                      = Some row \<and>
              distinct row \<and>
              set row =
                (\<Union>k\<in>{k. k < wlen \<and> (UseNaiveMethod cfg \<or> is_open (grid ! ((j + k) * w + i)))}.
                   down_columns (slice_index cfg grid ((j + k) * w + i))
                     (letter_index (word ! k))))) \<and>
         (\<forall>c. letter_index c < 26 \<and>
               alphabet ! letter_index c = (if c_isalpha c then c_tolower c else CHR ''x''))"
proof (intro conjI impI allI)
  assume "entry_fits_across grid w h i j word wlen \<noteq> 0"
  from add_row_across_eq[OF assms(1,3) entry_fits_across_bound[OF this] assms(4), of cfg word]
  show "\<exists>row. add_row_across cfg \<lparr>info_w = w, info_h = h, info_grid = grid\<rparr> i j word wlen
                      = Some row \<and>
              distinct row \<and>
              set row =
                (\<Union>k\<in>{k. k < wlen \<and> (UseNaiveMethod cfg \<or> is_open (grid ! (j * w + (i + k))))}.
                   across_columns (slice_index cfg grid (j * w + (i + k)))
                     (letter_index (word ! k)))"
    unfolding ch2idx_letter_index .
next
  assume "entry_fits_down grid w h i j word wlen \<noteq> 0"
  from add_row_down_eq[OF assms(1,2) entry_fits_down_bound[OF this] assms(4), of cfg word]
  show "\<exists>row. add_row_down cfg \<lparr>info_w = w, info_h = h, info_grid = grid\<rparr> i j word wlen
                      = Some row \<and>
              distinct row \<and>
              set row =
                (\<Union>k\<in>{k. k < wlen \<and> (UseNaiveMethod cfg \<or> is_open (grid ! ((j + k) * w + i)))}.
                   down_columns (slice_index cfg grid ((j + k) * w + i))
                     (letter_index (word ! k)))"
    unfolding ch2idx_letter_index .
next
  fix c show "letter_index c < 26" using letter_index_alphabet[of c] by simp
next
  fix c show "alphabet ! letter_index c = (if c_isalpha c then c_tolower c else CHR ''x'')"
    using letter_index_alphabet[of c] by simp
qed

theorem add_row_columns_witness:
  "valid_grid ''b0g'' 3 1 \<and> valid_grid ''b0g'' 1 3 \<and> (3::nat) \<le> MAX_WORDLEN \<and>
   entry_fits_across ''b0g'' 3 1 0 0 ''bag'' 3 \<noteq> 0 \<and>
   entry_fits_down ''b0g'' 1 3 0 0 ''bag'' 3 \<noteq> 0 \<and>
   (\<exists>row. add_row_across default_flags \<lparr>info_w = 3, info_h = 1, info_grid = ''b0g''\<rparr> 0 0 ''bag'' 3
              = Some row \<and>
      distinct row \<and>
      set row =
        (\<Union>k\<in>{k. k < 3 \<and> (UseNaiveMethod default_flags \<or> is_open (''b0g'' ! (0 * 3 + (0 + k))))}.
           across_columns (slice_index default_flags ''b0g'' (0 * 3 + (0 + k)))
             (letter_index (''bag'' ! k)))) \<and>
   (\<exists>row. add_row_down default_flags \<lparr>info_w = 1, info_h = 3, info_grid = ''b0g''\<rparr> 0 0 ''bag'' 3
              = Some row \<and>
      distinct row \<and>
      set row =
        (\<Union>k\<in>{k. k < 3 \<and> (UseNaiveMethod default_flags \<or> is_open (''b0g'' ! ((0 + k) * 1 + 0)))}.
           down_columns (slice_index default_flags ''b0g'' ((0 + k) * 1 + 0))
             (letter_index (''bag'' ! k)))) \<and>
   letter_index (''bag'' ! 1) = 0 \<and> c_isalpha CHR ''a'' \<and>
   alphabet ! letter_index CHR ''a'' = c_tolower CHR ''a''"
proof -
  have v1: "valid_grid ''b0g'' 3 1" and v2: "valid_grid ''b0g'' 1 3"
    by (simp_all add: valid_grid_def legal_cell_def is_open_def c_isalpha_def)
  have e1: "entry_fits_across ''b0g'' 3 1 0 0 ''bag'' 3 \<noteq> 0"
    by (simp add: entry_fits_across_def upt_rec matches_def strchr_def c_tolower_def)
  have e2: "entry_fits_down ''b0g'' 1 3 0 0 ''bag'' 3 \<noteq> 0"
    by (simp add: entry_fits_down_def upt_rec matches_def strchr_def c_tolower_def)
  have a: "(0::nat) < 3" and b: "(0::nat) < 1" and m: "(3::nat) \<le> MAX_WORDLEN"
    by (simp_all add: MAX_WORDLEN_def)
  have r1: "\<exists>row. add_row_across default_flags \<lparr>info_w = 3, info_h = 1, info_grid = ''b0g''\<rparr> 0 0 ''bag'' 3
              = Some row \<and>
      distinct row \<and>
      set row =
        (\<Union>k\<in>{k. k < 3 \<and> (UseNaiveMethod default_flags \<or> is_open (''b0g'' ! (0 * 3 + (0 + k))))}.
           across_columns (slice_index default_flags ''b0g'' (0 * 3 + (0 + k)))
             (letter_index (''bag'' ! k)))"
    by (rule add_row_columns[OF v1 a b m, of "''bag''" default_flags, THEN conjunct1, THEN mp, OF e1])
  have r2: "\<exists>row. add_row_down default_flags \<lparr>info_w = 1, info_h = 3, info_grid = ''b0g''\<rparr> 0 0 ''bag'' 3
              = Some row \<and>
      distinct row \<and>
      set row =
        (\<Union>k\<in>{k. k < 3 \<and> (UseNaiveMethod default_flags \<or> is_open (''b0g'' ! ((0 + k) * 1 + 0)))}.
           down_columns (slice_index default_flags ''b0g'' ((0 + k) * 1 + 0))
             (letter_index (''bag'' ! k)))"
    by (rule add_row_columns[OF v2 b a m, of "''bag''" default_flags, THEN conjunct2, THEN conjunct1, THEN mp, OF e2])
  have l: "letter_index (''bag'' ! 1) = 0" "c_isalpha CHR ''a''"
    "alphabet ! letter_index CHR ''a'' = c_tolower CHR ''a''"
    by (simp_all add: letter_index_def alphabet_def c_isalpha_def c_tolower_def)
  show ?thesis
    by (intro conjI v1 v2 m e1 e2 r1 r2 l)
qed

lemma add_row_forced_across_loop_letters:
  assumes "\<forall>x. k \<le> x \<and> x < n \<longrightarrow>
             c_isalpha (grid ! (j * w + (i + x))) \<and> grid ! (j * w + (i + x)) \<noteq> CHR ''#''"
    and "i + n = w \<or> (i + n < w \<and> grid ! (j * w + (i + n)) = CHR ''#'')"
    and "k \<le> n"
  shows "\<exists>c. add_row_forced_across_loop grid w i j k constraint = Some (n, c) \<and>
             length c = length constraint + 27 * (n - k)"
  using assms
proof (induction "n - k" arbitrary: k constraint)
  case 0
  then have "k = n" by simp
  with 0 show ?case
    by (subst add_row_forced_across_loop.simps) (auto simp: Let_def)
next
  case (Suc d)
  then have lt: "k < n" "i + k < w" by auto
  have a: "c_isalpha (grid ! (j * w + (i + k)))" "grid ! (j * w + (i + k)) \<noteq> CHR ''#''"
    using Suc.prems(1) lt by auto
  have "\<exists>c. add_row_forced_across_loop grid w i j (k + 1) c' = Some (n, c) \<and>
             length c = length c' + 27 * (n - (k + 1))" for c'
    using Suc.hyps(1)[of "k + 1" c'] Suc.hyps(2) Suc.prems lt by auto
  then show ?case
    using lt a
    by (subst add_row_forced_across_loop.simps) (fastforce simp: Let_def)
qed

text \<open>
  Claim C10 at the grid of one row \<open>abcdefghijklmno\<close>, a fully fixed run of 15 letters, in
  naive mode: \<^verbatim>\<open>xword_solve\<close> accepts the run (\<^verbatim>\<open>i - word_starts_here <= MAX_WORDLEN\<close>),
  the loop of \<^verbatim>\<open>add_row_forced_across\<close> ends with \<open>k = 15\<close>, and its
  \<^verbatim>\<open>assert(k < MAX_WORDLEN)\<close> fails: building the matrix aborts.
\<close>

theorem forced_across_fifteen_aborts:
  "map_option fst (add_row_forced_across_loop ''abcdefghijklmno'' 15 0 0 0 []) = Some 15 \<and>
   add_row_forced_across naive_flags 15 1 0 0 ''abcdefghijklmno'' = None \<and>
   xword_solve_matrix naive_flags ''abcdefghijklmno'' 15 1 [] = None"
proof -
  let ?G = "''abcdefghijklmno''"
  have letters: "\<forall>x. 0 \<le> x \<and> x < 15 \<longrightarrow>
             c_isalpha (?G ! (0 * 15 + (0 + x))) \<and> ?G ! (0 * 15 + (0 + x)) \<noteq> CHR ''#''"
  proof -
    have "list_all (\<lambda>x. c_isalpha (?G ! x) \<and> ?G ! x \<noteq> CHR ''#'') [0..<15]"
      by code_simp
    then show ?thesis by (simp add: list_all_iff)
  qed
  from add_row_forced_across_loop_letters[of 0 15 ?G 0 15 0 "[]", OF letters]
  obtain c where c: "add_row_forced_across_loop ?G 15 0 0 0 [] = Some (15, c)" by auto
  have row: "add_row_forced_across naive_flags 15 h 0 0 ?G = None" for h
    by (simp add: add_row_forced_across_def c naive_flags_def default_flags_def MAX_WORDLEN_def)
  have scan: "forced_across_scan naive_flags ?G 15 h 0 0 0 mat = None" for mat h
    by (simp add: forced_across_scan.simps row c_isalpha_def MAX_WORDLEN_def)
  have black: "black_rows_loop naive_flags ?G [0..<15] mat = Some mat" for mat
    by (simp add: upt_rec)
  have nr: "naive_rows naive_flags ?G 15 (Suc 0) mat = None" for mat
    by (simp add: naive_rows_def black scan upt_rec)
  have "UseNaiveMethod naive_flags"
    by (simp add: naive_flags_def)
  then have "xword_solve_matrix naive_flags ?G 15 1 [] = None"
    by (simp add: xword_solve_matrix_def NUMBER_OF_SLICES_def nr)
  with c row[of 1] show ?thesis by simp
qed

text \<open>
  Claim C8 at the grid of one row \<open>cat\<close> and the three-letter words \<open>ant\<close>, \<open>bee\<close>, \<open>cat\<close>,
  \<open>dog\<close>, with duplicate rejection on: \<^verbatim>\<open>strip_dict\<close> leaves \<open>dog\<close> and \<open>cat\<close>. Each was
  moved into the place of a removed word and never examined: \<open>cat\<close> matches the run of
  the grid exactly, and \<open>dog\<close> fits nowhere.
\<close>

theorem strip_dict_skips_moved_words:
  "strip_dict default_flags ''cat'' 3 1 (three_letter_dict [''ant'', ''bee'', ''cat'', ''dog''])
     = three_letter_dict [''dog'', ''cat''] \<and>
   entry_fits_across ''cat'' 3 1 0 0 ''cat'' 3 = 2 \<and>
   entry_fits_across ''cat'' 3 1 0 0 ''dog'' 3 = 0 \<and>
   entry_fits_across ''cat'' 3 1 1 0 ''dog'' 3 = 0 \<and>
   entry_fits_across ''cat'' 3 1 2 0 ''dog'' 3 = 0 \<and>
   entry_fits_down ''cat'' 3 1 0 0 ''dog'' 3 = 0 \<and>
   entry_fits_down ''cat'' 3 1 1 0 ''dog'' 3 = 0 \<and>
   entry_fits_down ''cat'' 3 1 2 0 ''dog'' 3 = 0"
  by code_simp

lemma b0g_strip:
  "strip_dict default_flags ''b0g'' 3 1 b0g_dict =
     three_letter_dict [''bag'', ''beg'', ''byg'', ''big'', ''bog'', ''bug'']"
  by code_simp

lemma b0g_rows:
  "xword_solve_matrix default_flags ''b0g'' 3 1
     (three_letter_dict [''bag'', ''beg'', ''byg'', ''big'', ''bog'', ''bug'']) =
   Some \<lparr>ncolumns = 54, mat_rows = map (\<lambda>v. across_block 0 (ch2idx v)) ''aeyiou''\<rparr>"
  by code_simp


lemma down_column_not_across: "54 * s + 53 \<notin> set (across_block s i)"
  by (auto simp: across_block_def) presburger+

lemma no_cover_without_down:
  assumes "\<forall>row\<in>set rws. c \<notin> set row" "c < n"
  shows "\<not> is_exact_cover \<lparr>ncolumns = n, mat_rows = rws\<rparr> S"
proof
  assume "is_exact_cover \<lparr>ncolumns = n, mat_rows = rws\<rparr> S"
  then have S: "S \<subseteq> {..<length rws}" and "\<exists>!r. r \<in> S \<and> c \<in> set (rws ! r)"
    using assms(2) by (auto simp: is_exact_cover_def)
  then obtain r where "r \<in> S" "c \<in> set (rws ! r)" by blast
  with S assms(1) show False by (auto simp: subset_iff)
qed

lemma b0g_no_cover:
  "\<not> is_exact_cover \<lparr>ncolumns = 54, mat_rows = map (\<lambda>v. across_block 0 (ch2idx v)) ''aeyiou''\<rparr> S"
proof (rule no_cover_without_down[where c = 53])
  show "\<forall>row\<in>set (map (\<lambda>v. across_block 0 (ch2idx v)) ''aeyiou''). 53 \<notin> set row"
    using down_column_not_across[of 0] by auto
qed simp

lemma column_count_zero:
  "column_count rws active c = 0 \<longleftrightarrow> (\<forall>r\<in>set active. c \<notin> set (rws ! r))"
  by (simp add: column_count_def filter_empty_conv)

lemma dance_search_step:
  assumes "cols \<noteq> []" "column_count rws active (arg_min_list (column_count rws active) cols) \<noteq> 0"
  shows "set (dance_search rws cols active stack) =
           (\<Union>r\<in>{r \<in> set active. arg_min_list (column_count rws active) cols \<in> set (rws ! r)}.
              set (dance_search rws
                     (filter (\<lambda>c'. c' \<notin> set (rws ! r)) cols)
                     (filter (\<lambda>r'. set (rws ! r') \<inter> set (rws ! r) = {}) active)
                     ((r, arg_min_list (column_count rws active) cols) # stack)))"
  using assms by (subst dance_search.simps) (simp add: Let_def)

lemma dance_search_stop:
  assumes "cols \<noteq> []" "column_count rws active (arg_min_list (column_count rws active) cols) = 0"
  shows "dance_search rws cols active stack = []"
  using assms by (subst dance_search.simps) (simp add: Let_def)

lemma dance_search_nil: "dance_search rws [] active stack = [rev stack]"
  by (subst dance_search.simps) simp

lemma dance_search_sound:
  "sol \<in> set (dance_search rws cols active stack) \<Longrightarrow>
     \<exists>ts. sol = rev stack @ ts \<and> fst ` set ts \<subseteq> set active \<and>
          (\<forall>c\<in>set cols. \<exists>!r. r \<in> fst ` set ts \<and> c \<in> set (rws ! r))"
proof (induction rws cols active stack rule: dance_search.induct)
  case (1 rws cols active stack)
  show ?case
  proof (cases "cols = []")
    case True
    with "1.prems" have "sol = rev stack"
      by (simp add: dance_search_nil)
    then show ?thesis using True by simp
  next
    case False
    let ?c = "arg_min_list (column_count rws active) cols"
    have cnt: "column_count rws active ?c \<noteq> 0"
    proof
      assume "column_count rws active ?c = 0"
      from dance_search_stop[OF False this, of stack] "1.prems"
      show False by simp
    qed
    from "1.prems"[unfolded dance_search_step[OF False cnt, of stack]]
    obtain r where
      r: "r \<in> set active" "?c \<in> set (rws ! r)"
      and sol: "sol \<in> set (dance_search rws
                  (filter (\<lambda>c'. c' \<notin> set (rws ! r)) cols)
                  (filter (\<lambda>r'. set (rws ! r') \<inter> set (rws ! r) = {}) active)
                  ((r, ?c) # stack))"
      by (elim UN_E CollectE conjE)
    have rf: "r \<in> set (filter (\<lambda>r. ?c \<in> set (rws ! r)) active)" using r by simp
    from "1.IH"[OF False refl cnt rf sol]
    obtain ts where ts: "sol = rev ((r, ?c) # stack) @ ts"
      "fst ` set ts \<subseteq> set (filter (\<lambda>r'. set (rws ! r') \<inter> set (rws ! r) = {}) active)"
      "\<forall>c'\<in>set (filter (\<lambda>c'. c' \<notin> set (rws ! r)) cols).
          \<exists>!r'. r' \<in> fst ` set ts \<and> c' \<in> set (rws ! r')"
      by (elim exE conjE)
    let ?ts = "(r, ?c) # ts"
    have 1: "sol = rev stack @ ?ts" using ts(1) by simp
    have 2: "fst ` set ?ts \<subseteq> set active" using ts(2) r(1) by auto
    have dis: "set (rws ! r') \<inter> set (rws ! r) = {}" if "r' \<in> fst ` set ts" for r'
      using ts(2) that by auto
    have 3: "\<exists>!r'. r' \<in> fst ` set ?ts \<and> c' \<in> set (rws ! r')" if c': "c' \<in> set cols" for c'
    proof (cases "c' \<in> set (rws ! r)")
      case True
      have u: "r' = r" if "r' \<in> fst ` set ?ts" "c' \<in> set (rws ! r')" for r'
      proof (rule ccontr)
        assume "r' \<noteq> r"
        with that(1) have "r' \<in> fst ` set ts" by auto
        from dis[OF this] True that(2) show False by auto
      qed
      have m: "r \<in> fst ` set ?ts" by simp
      show ?thesis
      proof (rule ex1I[of _ r])
        show "r \<in> fst ` set ?ts \<and> c' \<in> set (rws ! r)" using m True by simp
        fix r' assume "r' \<in> fst ` set ?ts \<and> c' \<in> set (rws ! r')"
        then show "r' = r" using u by blast
      qed
    next
      case False
      with c' have "c' \<in> set (filter (\<lambda>c'. c' \<notin> set (rws ! r)) cols)" by simp
      from bspec[OF ts(3) this] have ex: "\<exists>!r'. r' \<in> fst ` set ts \<and> c' \<in> set (rws ! r')" .
      then obtain r1 where r1: "r1 \<in> fst ` set ts" "c' \<in> set (rws ! r1)"
        and u: "\<And>r'. r' \<in> fst ` set ts \<Longrightarrow> c' \<in> set (rws ! r') \<Longrightarrow> r' = r1"
        by (elim ex1E conjE) blast
      have m: "r1 \<in> fst ` set ?ts" using r1(1) by auto
      show ?thesis
      proof (rule ex1I[of _ r1])
        show "r1 \<in> fst ` set ?ts \<and> c' \<in> set (rws ! r1)" using m r1(2) by simp
        fix r' assume a: "r' \<in> fst ` set ?ts \<and> c' \<in> set (rws ! r')"
        with False have "r' \<noteq> r" by auto
        with a have "r' \<in> fst ` set ts" by auto
        from u[OF this] a show "r' = r1" by simp
      qed
    qed
    show ?thesis
    proof (intro exI[of _ ?ts] conjI ballI)
      show "sol = rev stack @ ?ts" by (rule 1)
      show "fst ` set ?ts \<subseteq> set active" by (rule 2)
      fix c' assume "c' \<in> set cols"
      then show "\<exists>!r'. r' \<in> fst ` set ?ts \<and> c' \<in> set (rws ! r')" by (rule 3)
    qed
  qed
qed

lemma dance_search_complete:
  "T \<subseteq> set active \<Longrightarrow>
   \<forall>c\<in>set cols. \<exists>!r. r \<in> T \<and> c \<in> set (rws ! r) \<Longrightarrow>
   \<forall>r\<in>T. rws ! r \<noteq> [] \<and> set (rws ! r) \<subseteq> set cols \<Longrightarrow>
     \<exists>sol\<in>set (dance_search rws cols active stack). \<exists>ts. sol = rev stack @ ts \<and> fst ` set ts = T"
proof (induction rws cols active stack arbitrary: T rule: dance_search.induct)
  case (1 rws cols active stack)
  show ?case
  proof (cases "cols = []")
    case True
    have "T = {}"
    proof (rule ccontr)
      assume "T \<noteq> {}"
      then obtain r where "r \<in> T" by (meson ex_in_conv)
      from bspec[OF "1.prems"(3) this] True show False by simp
    qed
    then show ?thesis using True by (simp add: dance_search_nil)
  next
    case False
    let ?c = "arg_min_list (column_count rws active) cols"
    have cin: "?c \<in> set cols" by (rule arg_min_list_in[OF False])
    from bspec[OF "1.prems"(2) cin] obtain r where r: "r \<in> T" "?c \<in> set (rws ! r)"
      by (elim ex1E conjE)
    have ra: "r \<in> set active" using r(1) "1.prems"(1) by (rule subsetD[rotated])
    have cnt: "column_count rws active ?c \<noteq> 0"
      using ra r(2) by (simp add: column_count_zero) blast
    have rf: "r \<in> set (filter (\<lambda>r. ?c \<in> set (rws ! r)) active)" using ra r(2) by simp
    let ?cols = "filter (\<lambda>c'. c' \<notin> set (rws ! r)) cols"
    let ?active = "filter (\<lambda>r'. set (rws ! r') \<inter> set (rws ! r) = {}) active"
    let ?T = "T - {r}"
    have uniq: "q = q'" if "q \<in> T" "q' \<in> T" "x \<in> set (rws ! q)" "x \<in> set (rws ! q')" for q q' x
    proof -
      from bspec[OF "1.prems"(3) that(1)] that(3) have "x \<in> set cols" by (simp add: subset_iff)
      from bspec[OF "1.prems"(2) this] that show ?thesis by (elim ex1E) metis
    qed
    have dis: "set (rws ! r') \<inter> set (rws ! r) = {}" if "r' \<in> ?T" for r'
    proof (rule ccontr)
      assume "set (rws ! r') \<inter> set (rws ! r) \<noteq> {}"
      then obtain x where x: "x \<in> set (rws ! r')" "x \<in> set (rws ! r)"
        by (meson ex_in_conv IntE)
      from that have r'T: "r' \<in> T" by simp
      from uniq[OF r'T r(1) x] that show False by simp
    qed
    have p1: "?T \<subseteq> set ?active"
    proof
      fix q assume q: "q \<in> ?T"
      then have "q \<in> set active" using "1.prems"(1) by (simp add: subset_iff)
      with dis[OF q] show "q \<in> set ?active" by simp
    qed
    have p2: "\<forall>c'\<in>set ?cols. \<exists>!q. q \<in> ?T \<and> c' \<in> set (rws ! q)"
    proof
      fix c' assume c': "c' \<in> set ?cols"
      then have cc: "c' \<in> set cols" and nr: "c' \<notin> set (rws ! r)" by simp_all
      from bspec[OF "1.prems"(2) cc] obtain q where q: "q \<in> T" "c' \<in> set (rws ! q)"
        by (elim ex1E conjE)
      from q nr have qT: "q \<in> ?T" by auto
      show "\<exists>!q. q \<in> ?T \<and> c' \<in> set (rws ! q)"
      proof (rule ex1I[of _ q])
        show "q \<in> ?T \<and> c' \<in> set (rws ! q)" using qT q(2) by simp
        fix q' assume "q' \<in> ?T \<and> c' \<in> set (rws ! q')"
        then have "q' \<in> T" "c' \<in> set (rws ! q')" by simp_all
        from uniq[OF this(1) q(1) this(2) q(2)] show "q' = q" .
      qed
    qed
    have p3: "\<forall>q\<in>?T. rws ! q \<noteq> [] \<and> set (rws ! q) \<subseteq> set ?cols"
    proof
      fix q assume q: "q \<in> ?T"
      then have "q \<in> T" by simp
      from bspec[OF "1.prems"(3) this] have "rws ! q \<noteq> []" "set (rws ! q) \<subseteq> set cols"
        by simp_all
      with dis[OF q] show "rws ! q \<noteq> [] \<and> set (rws ! q) \<subseteq> set ?cols" by auto
    qed
    from "1.IH"[OF False refl cnt rf p1 p2 p3]
    obtain sol ts where sol: "sol \<in> set (dance_search rws ?cols ?active ((r, ?c) # stack))"
      "sol = rev ((r, ?c) # stack) @ ts" "fst ` set ts = ?T"
      by (elim bexE exE conjE)
    have "sol \<in> set (dance_search rws cols active stack)"
      unfolding dance_search_step[OF False cnt, of stack]
      using ra r(2) sol(1) by (intro UN_I[of r]) simp_all
    moreover have "sol = rev stack @ (r, ?c) # ts" using sol(2) by simp
    moreover have "fst ` set ((r, ?c) # ts) = T" using sol(3) r(1) by auto
    ultimately show ?thesis by (intro bexI[of _ sol] exI[of _ "(r, ?c) # ts"] conjI)
  qed
qed

text \<open>
  The search is sound and complete: for a matrix whose rows are not empty and lie within
  its columns, which is what \<open>dance_addrow\<close> admits for the second, the sets of rows it
  reaches are exactly the exact covers.
\<close>

lemma dance_search_exact_covers:
  assumes "\<forall>row\<in>set rws. row \<noteq> [] \<and> (\<forall>c\<in>set row. c < n)"
  shows "(\<exists>sol\<in>set (dance_search rws [0..<n] [0..<length rws] []). fst ` set sol = S) \<longleftrightarrow>
         is_exact_cover \<lparr>ncolumns = n, mat_rows = rws\<rparr> S"
proof
  assume "\<exists>sol\<in>set (dance_search rws [0..<n] [0..<length rws] []). fst ` set sol = S"
  then obtain sol where "sol \<in> set (dance_search rws [0..<n] [0..<length rws] [])"
    and S: "fst ` set sol = S" by blast
  from dance_search_sound[OF this(1)]
  obtain ts where "sol = rev [] @ ts" "fst ` set ts \<subseteq> set [0..<length rws]"
    "\<forall>c\<in>set [0..<n]. \<exists>!r. r \<in> fst ` set ts \<and> c \<in> set (rws ! r)"
    by blast
  then have "fst ` set sol \<subseteq> set [0..<length rws]"
    "\<forall>c\<in>set [0..<n]. \<exists>!r. r \<in> fst ` set sol \<and> c \<in> set (rws ! r)"
    by simp_all
  then have "S \<subseteq> set [0..<length rws]" "\<forall>c\<in>set [0..<n]. \<exists>!r. r \<in> S \<and> c \<in> set (rws ! r)"
    unfolding S .
  then show "is_exact_cover \<lparr>ncolumns = n, mat_rows = rws\<rparr> S"
    by (simp add: is_exact_cover_def subset_iff)
next
  assume c: "is_exact_cover \<lparr>ncolumns = n, mat_rows = rws\<rparr> S"
  then have 1: "S \<subseteq> set [0..<length rws]"
    and 2: "\<forall>c\<in>set [0..<n]. \<exists>!r. r \<in> S \<and> c \<in> set (rws ! r)"
    by (simp_all add: is_exact_cover_def subset_iff)
  have 3: "\<forall>r\<in>S. rws ! r \<noteq> [] \<and> set (rws ! r) \<subseteq> set [0..<n]"
  proof
    fix r assume "r \<in> S"
    with 1 have "rws ! r \<in> set rws" by (auto intro: nth_mem)
    with assms show "rws ! r \<noteq> [] \<and> set (rws ! r) \<subseteq> set [0..<n]" by auto
  qed
  from dance_search_complete[OF 1 2 3, of "[]"]
  obtain sol ts where "sol \<in> set (dance_search rws [0..<n] [0..<length rws] [])"
    "sol = rev [] @ ts" "fst ` set ts = S" by blast
  then show "\<exists>sol\<in>set (dance_search rws [0..<n] [0..<length rws] []). fst ` set sol = S"
    by auto
qed

lemma no_cover_no_solution:
  assumes "\<forall>S. \<not> is_exact_cover mat S"
  shows "dance_covers mat = []"
proof -
  have "dance_search (mat_rows mat) [0..<ncolumns mat] [0..<length (mat_rows mat)] [] = []"
  proof (rule ccontr)
    assume "dance_search (mat_rows mat) [0..<ncolumns mat] [0..<length (mat_rows mat)] [] \<noteq> []"
    then have "set (dance_search (mat_rows mat) [0..<ncolumns mat] [0..<length (mat_rows mat)] []) \<noteq> {}"
      by simp
    then obtain sol where
      "sol \<in> set (dance_search (mat_rows mat) [0..<ncolumns mat] [0..<length (mat_rows mat)] [])"
      by (meson ex_in_conv)
    from dance_search_sound[OF this]
    obtain ts where "sol = rev [] @ ts" "fst ` set ts \<subseteq> set [0..<length (mat_rows mat)]"
      "\<forall>c\<in>set [0..<ncolumns mat]. \<exists>!r. r \<in> fst ` set ts \<and> c \<in> set (mat_rows mat ! r)"
      by blast
    then have "fst ` set sol \<subseteq> set [0..<length (mat_rows mat)]"
      "\<forall>c\<in>set [0..<ncolumns mat]. \<exists>!r. r \<in> fst ` set sol \<and> c \<in> set (mat_rows mat ! r)"
      by simp_all
    then have "is_exact_cover mat (fst ` set sol)"
      by (simp add: is_exact_cover_def subset_iff)
    with assms show False by blast
  qed
  then show ?thesis by (simp add: dance_covers_def)
qed

lemma b0g_letter_indices: "map ch2idx ''aeyiou'' = [0, 4, 24, 8, 14, 20]"
  by code_simp

lemma b0g_check: "grid_contains_duplicates ''b0g'' 3 1 7 = 0"
  by code_simp

text \<open>
  Claim C1, as the code has it. For the grid of one row \<open>b0g\<close>, which passes the
  duplicate check of \<^verbatim>\<open>main\<close>, and the dictionary \<open>bag beg bfg big bog bug byg\<close>: after
  \<^verbatim>\<open>strip_dict\<close> the matrix has 54 columns and six rows, the Across placements of \<open>bag\<close>,
  \<open>beg\<close>, \<open>byg\<close>, \<open>big\<close>, \<open>bog\<close>, \<open>bug\<close> in this order, each with the columns of slice 0
  for the letter index of its vowel (0, 4, 24, 8, 14, 20); \<open>bfg\<close> has no row. No Down run
  passes through the open cell, so no row contains its Down orientation column 53: the
  matrix has no exact cover, the search delivers no cover to the callback, and the
  program prints no grid and counts 0 solutions.
\<close>

theorem b0g_has_no_solution:
  "\<exists>mat. xword_solve_matrix default_flags ''b0g'' 3 1
            (strip_dict default_flags ''b0g'' 3 1 b0g_dict) = Some mat \<and>
     ncolumns mat = 54 \<and>
     map set (mat_rows mat) = map (across_columns 0) [0, 4, 24, 8, 14, 20] \<and>
     map (nth alphabet) [0, 4, 24, 8, 14, 20] = ''aeyiou'' \<and>
     (\<forall>row\<in>set (mat_rows mat). 53 \<notin> set row) \<and>
     (\<forall>S. \<not> is_exact_cover mat S) \<and>
     dance_covers mat = [] \<and>
     grid_contains_duplicates ''b0g'' 3 1 7 = 0 \<and>
     (\<forall>mem. fill_grid default_flags mem ''b0g'' 3 1 b0g_dict = Some (0, initial_counters, []))"
proof -
  let ?mat = "\<lparr>ncolumns = 54, mat_rows = map (\<lambda>v. across_block 0 (ch2idx v)) ''aeyiou''\<rparr>"
  have m: "xword_solve_matrix default_flags ''b0g'' 3 1
            (strip_dict default_flags ''b0g'' 3 1 b0g_dict) = Some ?mat"
    unfolding b0g_strip b0g_rows ..
  have s: "set (across_block 0 (ch2idx v)) = across_columns 0 (ch2idx v)" for v
    by (rule set_across_block[OF ch2idx_lt])
  have "map set (mat_rows ?mat) = map (across_columns 0) (map ch2idx ''aeyiou'')"
    by (simp add: s)
  then have r: "map set (mat_rows ?mat) = map (across_columns 0) [0, 4, 24, 8, 14, 20]"
    unfolding b0g_letter_indices .
  have i: "map (nth alphabet) [0, 4, 24, 8, 14, 20] = ''aeyiou''"
    by (simp add: alphabet_def)
  have d: "\<forall>row\<in>set (mat_rows ?mat). 53 \<notin> set row"
    using down_column_not_across[of 0] by auto
  have n: "\<forall>S. \<not> is_exact_cover ?mat S"
    using b0g_no_cover by blast
  have e: "dance_covers ?mat = []"
    by (rule no_cover_no_solution[OF n])
  have f: "fill_grid default_flags mem ''b0g'' 3 1 b0g_dict = Some (0, initial_counters, [])" for mem
    by (simp only: fill_grid_def xword_solve_def m option.case dance_solve_def e
          dance_solve_callbacks.simps)
  show ?thesis
    using m r i d n e f b0g_check by (intro exI[of _ ?mat]) simp
qed

theorem b0g_has_no_solution_witness:
  "\<exists>mat. xword_solve_matrix default_flags ''b0g'' 3 1
            (strip_dict default_flags ''b0g'' 3 1 b0g_dict) = Some mat \<and>
     \<not> is_exact_cover mat {0, 1, 2, 3, 4, 5} \<and>
     dance_covers mat = [] \<and>
     fill_grid default_flags 100 ''b0g'' 3 1 b0g_dict = Some (0, initial_counters, [])"
  using b0g_has_no_solution by blast

text \<open>
  Claim C1 as stated fails: the matrix built for \<open>b0g\<close> has no exact cover, not six.
\<close>

theorem b0g_six_covers_counterexample:
  "\<not> (\<exists>S. is_exact_cover
             (the (xword_solve_matrix default_flags ''b0g'' 3 1
                     (strip_dict default_flags ''b0g'' 3 1 b0g_dict))) S)"
  unfolding b0g_strip b0g_rows using b0g_no_cover by simp

lemma cover_tap_tap_rows:
  "cover_tap_tap =
     [the (add_row_across default_flags tap_info 0 0 ''tap'' 3),
      the (add_row_across default_flags tap_info 0 2 ''tap'' 3),
      the (add_row_down default_flags tap_info 2 0 ''pep'' 3)]"
  by code_simp

lemma callback_skipped:
  assumes "\<not> passes_gate cfg st"
  shows "print_crossword_result cfg mem info st sol =
           Some (0, st\<lparr>skipped_so_far := skipped_so_far st + 1\<rparr>, [])"
  using assms by (simp add: print_crossword_result_def passes_gate_def Let_def)

lemma callback_considered:
  assumes "passes_gate cfg st"
    and "NumSolutions cfg = - 1 \<or> printed_so_far st < NumSolutions cfg"
    and "0 < mem"
    and "decoded cfg info sol = Some g"
  shows "print_crossword_result cfg mem info st sol =
     (let rc = duplicate_check cfg mem info g in
      if rc < 0 then Some (- 1, after_gate cfg st, [])
      else if rc = 1 then Some (0, after_gate cfg st, [])
      else if rc \<noteq> 0 then None
      else Some (if printed_so_far st + 1 = NumSolutions cfg then - 99 else 1,
                 (after_gate cfg st)\<lparr>printed_so_far := printed_so_far st + 1\<rparr>,
                 [grid_text g (info_w info) (info_h info)]))"
proof -
  have d: "decode_solution cfg info sol (take (info_w info * info_h info) (info_grid info)) = Some g"
    using assms(4) by (simp add: decoded_def)
  show ?thesis
  proof (cases "PrintEveryNthSolution cfg = 1")
    case True
    then show ?thesis
      using assms(2,3) d
      by (auto simp: print_crossword_result_def Let_def after_gate_def duplicate_check_def)
  next
    case False
    with assms(1) have "\<not> skipped_so_far st + 1 < PrintEveryNthSolution cfg"
      by (simp add: passes_gate_def)
    then show ?thesis
      using False assms(2,3) d
      by (auto simp: print_crossword_result_def Let_def after_gate_def duplicate_check_def)
  qed
qed

lemma pick_every_index:
  assumes "s < K"
  shows "pick_every K s xs = map (nth xs) (filter (\<lambda>i. (s + Suc i) mod K = 0) [0..<length xs])"
  using assms
proof (induction xs arbitrary: s)
  case Nil
  show ?case by simp
next
  case (Cons x xs)
  have shift: "[0..<length (x # xs)] = 0 # map Suc [0..<length xs]"
    by (simp add: upt_conv_Cons map_Suc_upt del: upt_Suc)
  show ?case
  proof (cases "s + 1 < K")
    case True
    then have "(s + Suc 0) mod K \<noteq> 0" by simp
    with True Cons.IH[of "s + 1"] show ?thesis
      unfolding shift by (simp add: filter_map comp_def)
  next
    case False
    with Cons.prems have K: "K = s + 1" by simp
    have "(s + Suc (Suc i)) mod K = (0 + Suc i) mod K" for i
      unfolding K by (metis add.commute add_Suc_right add_Suc mod_add_self1 plus_1_eq_Suc add_0)
    with False Cons.IH[of 0] Cons.prems K show ?thesis
      unfolding shift by (simp add: filter_map comp_def)
  qed
qed

lemma every_nth_pick: "0 < K \<Longrightarrow> every_nth K xs = pick_every K 0 xs"
  by (simp add: every_nth_def pick_every_index)

lemma run_output_general:
  assumes K: "1 \<le> PrintEveryNthSolution cfg" and mem: "0 < mem"
    and ok: "\<forall>sol\<in>set sols. acceptable cfg mem info sol \<or> rejected cfg mem info sol"
    and s: "0 \<le> skipped_so_far st" "skipped_so_far st < PrintEveryNthSolution cfg"
    and p: "0 \<le> printed_so_far st" "NumSolutions cfg = - 1 \<or> printed_so_far st < NumSolutions cfg"
  shows "\<exists>st'. dance_solve_callbacks cfg mem info sols st count out =
           Some (run_value cfg (printed_so_far st) count (selected cfg mem info (skipped_so_far st) sols),
                 st',
                 out @ limited cfg (printed_so_far st)
                         (map (solution_text cfg info) (selected cfg mem info (skipped_so_far st) sols)))"
  using ok s p
proof (induction sols arbitrary: st count out)
  case Nil
  have "NumSolutions cfg \<noteq> - 1 \<Longrightarrow> 0 < nat (NumSolutions cfg - printed_so_far st)"
    using Nil by auto
  then show ?case by (auto simp: limited_def run_value_def selected_def)
next
  case (Cons sol sols)
  let ?K = "PrintEveryNthSolution cfg"
  let ?N = "NumSolutions cfg"
  have ok': "\<forall>sol\<in>set sols. acceptable cfg mem info sol \<or> rejected cfg mem info sol"
    using Cons.prems(1) by simp
  show ?case
  proof (cases "passes_gate cfg st")
    case False
    then have lt: "skipped_so_far st + 1 < ?K" and K1: "?K \<noteq> 1"
      by (auto simp: passes_gate_def)
    let ?st = "st\<lparr>skipped_so_far := skipped_so_far st + 1\<rparr>"
    have natlt: "nat (skipped_so_far st) + 1 < nat ?K"
      using lt Cons.prems(2) by linarith
    have nats: "nat (skipped_so_far st + 1) = nat (skipped_so_far st) + 1"
      using Cons.prems(2) by (simp add: nat_add_distrib)
    have sel: "selected cfg mem info (skipped_so_far st) (sol # sols) =
               selected cfg mem info (skipped_so_far ?st) sols"
      using natlt nats by (simp add: selected_def)
    from Cons.IH[of ?st count out, OF ok'] lt Cons.prems
    obtain st' where
      "dance_solve_callbacks cfg mem info sols ?st count out =
         Some (run_value cfg (printed_so_far ?st) count (selected cfg mem info (skipped_so_far ?st) sols),
               st',
               out @ limited cfg (printed_so_far ?st)
                       (map (solution_text cfg info) (selected cfg mem info (skipped_so_far ?st) sols)))"
      by force
    then show ?thesis
      unfolding sel by (simp add: callback_skipped[OF False])
  next
    case True
    then have nolt: "\<not> nat (skipped_so_far st) + 1 < nat ?K"
      using Cons.prems(2,3) K by (auto simp: passes_gate_def)
    let ?st0 = "after_gate cfg st"
    have st0: "skipped_so_far ?st0 = 0" "printed_so_far ?st0 = printed_so_far st"
      using True Cons.prems(2,3) by (auto simp: after_gate_def passes_gate_def)
    from Cons.prems(1) consider (acc) "acceptable cfg mem info sol" | (rej) "rejected cfg mem info sol"
      by auto
    then show ?thesis
    proof cases
      case rej
      then obtain g where g: "decoded cfg info sol = Some g" "duplicate_check cfg mem info g = 1"
        by (auto simp: rejected_def split: option.splits)
      then have nacc: "\<not> acceptable cfg mem info sol" by (simp add: acceptable_def)
      have cb: "print_crossword_result cfg mem info st sol = Some (0, ?st0, [])"
        using callback_considered[OF True Cons.prems(5) mem g(1)] g(2) by simp
      have sel: "selected cfg mem info (skipped_so_far st) (sol # sols) =
                 selected cfg mem info 0 sols"
        using nolt nacc by (simp add: selected_def)
      from Cons.IH[of ?st0 count out, OF ok'] st0 K Cons.prems(4,5)
      obtain st' where
        "dance_solve_callbacks cfg mem info sols ?st0 count out =
           Some (run_value cfg (printed_so_far st) count (selected cfg mem info 0 sols),
                 st',
                 out @ limited cfg (printed_so_far st)
                         (map (solution_text cfg info) (selected cfg mem info 0 sols)))"
        by force
      then show ?thesis
        unfolding sel by (simp add: cb)
    next
      case acc
      then obtain g where g: "decoded cfg info sol = Some g" "duplicate_check cfg mem info g = 0"
        by (auto simp: acceptable_def split: option.splits)
      have stext: "solution_text cfg info sol = grid_text g (info_w info) (info_h info)"
        using g(1) by (simp add: solution_text_def)
      let ?st1 = "?st0\<lparr>printed_so_far := printed_so_far st + 1\<rparr>"
      have cb: "print_crossword_result cfg mem info st sol =
                  Some (if printed_so_far st + 1 = ?N then - 99 else 1, ?st1,
                        [solution_text cfg info sol])"
        using callback_considered[OF True Cons.prems(5) mem g(1)] g(2) by (simp add: stext)
      have st1: "skipped_so_far ?st1 = 0" "printed_so_far ?st1 = printed_so_far st + 1"
        using st0 by simp_all
      have sel: "selected cfg mem info (skipped_so_far st) (sol # sols) =
                 sol # selected cfg mem info 0 sols"
        using nolt acc by (simp add: selected_def)
      show ?thesis
      proof (cases "printed_so_far st + 1 = ?N")
        case True
        then have "?N \<noteq> - 1" using Cons.prems(4) by auto
        moreover have "nat (?N - printed_so_far st) = Suc 0" using True by simp
        ultimately show ?thesis
          unfolding sel using True by (simp add: cb limited_def run_value_def)
      next
        case False
        then have p': "?N = - 1 \<or> printed_so_far ?st1 < ?N"
          using Cons.prems(5) by auto
        from Cons.IH[of ?st1 "count + 1" "out @ [solution_text cfg info sol]", OF ok'] st1 K
          Cons.prems(4) p'
        obtain st' where r:
          "dance_solve_callbacks cfg mem info sols ?st1 (count + 1) (out @ [solution_text cfg info sol]) =
             Some (run_value cfg (printed_so_far st + 1) (count + 1) (selected cfg mem info 0 sols),
                   st',
                   (out @ [solution_text cfg info sol]) @ limited cfg (printed_so_far st + 1)
                      (map (solution_text cfg info) (selected cfg mem info 0 sols)))"
          by force
        have lim: "limited cfg (printed_so_far st) (x # xs) = x # limited cfg (printed_so_far st + 1) xs"
          for x :: string and xs
        proof (cases "?N = - 1")
          case True
          then show ?thesis by (simp add: limited_def)
        next
          case N: False
          with Cons.prems(5) False have "printed_so_far st + 1 < ?N" by auto
          then have "nat (?N - printed_so_far st) = Suc (nat (?N - (printed_so_far st + 1)))"
            by linarith
          then show ?thesis using N by (simp add: limited_def)
        qed
        have val: "run_value cfg (printed_so_far st) count (x # xs) =
                   run_value cfg (printed_so_far st + 1) (count + 1) xs"
          for x :: "nat list list" and xs
        proof (cases "?N = - 1")
          case True
          then show ?thesis by (simp add: run_value_def)
        next
          case N: False
          with Cons.prems(5) False have "printed_so_far st + 1 < ?N" by auto
          then have "nat (?N - printed_so_far st) = Suc (nat (?N - (printed_so_far st + 1)))"
            by linarith
          then show ?thesis using N by (simp add: run_value_def)
        qed
        show ?thesis
          unfolding sel using False r by (simp add: cb lim val)
      qed
    qed
  qed
qed

lemma SLICE_TO_CELL_flags:
  "UseNaiveMethod cfg = UseNaiveMethod cfg' \<Longrightarrow> SLICE_TO_CELL cfg s info = SLICE_TO_CELL cfg' s info"
  by (simp add: SLICE_TO_CELL_def Let_def)

lemma extract_letters_flags:
  "UseNaiveMethod cfg = UseNaiveMethod cfg' \<Longrightarrow>
     extract_letters cfg info row grid = extract_letters cfg' info row grid"
  by (induction row arbitrary: grid)
     (auto simp: SLICE_TO_CELL_flags[of cfg cfg'] Let_def split: option.splits)

lemma decode_solution_flags:
  "UseNaiveMethod cfg = UseNaiveMethod cfg' \<Longrightarrow>
     decode_solution cfg info sol grid = decode_solution cfg' info sol grid"
  by (induction sol arbitrary: grid)
     (auto simp: extract_letters_flags[of cfg cfg'] Let_def split: option.splits)

lemma decoded_flags:
  "UseNaiveMethod cfg = UseNaiveMethod cfg' \<Longrightarrow> decoded cfg info sol = decoded cfg' info sol"
  by (simp add: decoded_def decode_solution_flags[of cfg cfg'])

lemma decoded_tap_tap: "decoded default_flags tap_info cover_tap_tap = Some ''taponetap''"
  by code_simp

lemma decoded_tap_tat: "decoded default_flags tap_info cover_tap_tat = Some ''taponetat''"
  by code_simp

lemma gcd_tap_tap: "grid_contains_duplicates ''taponetap'' 3 3 99 = 1"
  by code_simp

lemma gcd_tap_tat: "grid_contains_duplicates ''taponetat'' 3 3 99 = 0"
  by code_simp

lemma gcd_end_across_line:
  "gcd_end_across grid w j es invalid = line_end (\<lambda>x. grid ! (j * w + x)) w es invalid"
  by (induction es arbitrary: invalid) auto

lemma gcd_end_down_line:
  "gcd_end_down grid w h i es invalid = line_end (\<lambda>x. grid ! (x * w + i)) h es invalid"
  by (induction es arbitrary: invalid) auto

lemma gcd_across_row_line:
  "gcd_across_row grid w j i s = line_scan (\<lambda>x. grid ! (j * w + x)) w i s"
proof (induction grid w j i s rule: gcd_across_row.induct)
  case (1 grid w j i dict mem rc)
  show ?case
    apply (subst gcd_across_row.simps)
    apply (subst line_scan.simps)
    using 1 by (simp add: gcd_end_across_line)
qed

lemma gcd_down_col_line:
  "gcd_down_col grid w h i j s = line_scan (\<lambda>x. grid ! (x * w + i)) h j s"
proof (induction grid w h i j s rule: gcd_down_col.induct)
  case (1 grid w h i j dict mem rc)
  show ?case
    apply (subst gcd_down_col.simps)
    apply (subst line_scan.simps)
    using 1 by (simp add: gcd_end_down_line)
qed

lemma line_end_spec:
  assumes "k \<le> n"
  shows "\<exists>e. line_end c n [k..<n] invalid =
               (e, invalid \<or> (\<exists>x. k \<le> x \<and> x < e \<and> strchr ''.01'' (c x))) \<and>
             k \<le> e \<and> e \<le> n \<and> (\<forall>x. k \<le> x \<and> x < e \<longrightarrow> c x \<noteq> CHR ''#'') \<and>
             (e = n \<or> c e = CHR ''#'')"
  using assms
proof (induction "n - k" arbitrary: k invalid)
  case 0
  then show ?case by auto
next
  case (Suc d)
  then have lt: "k < n" by simp
  show ?case
  proof (cases "c k = CHR ''#''")
    case True
    then show ?thesis using lt by (auto simp: upt_rec[of k n])
  next
    case False
    have dk: "d = n - Suc k" using Suc(2) by linarith
    have le: "Suc k \<le> n" using lt by simp
    from Suc(1)[OF dk le, of "invalid \<or> strchr ''.01'' (c k)"]
    obtain e where e: "line_end c n [Suc k..<n] (invalid \<or> strchr ''.01'' (c k)) =
               (e, (invalid \<or> strchr ''.01'' (c k)) \<or> (\<exists>x. Suc k \<le> x \<and> x < e \<and> strchr ''.01'' (c x)))"
      "Suc k \<le> e" "e \<le> n" "\<forall>x. Suc k \<le> x \<and> x < e \<longrightarrow> c x \<noteq> CHR ''#''" "e = n \<or> c e = CHR ''#''"
      by blast
    have 1: "(invalid \<or> strchr ''.01'' (c k)) \<or> (\<exists>x. Suc k \<le> x \<and> x < e \<and> strchr ''.01'' (c x))
          \<longleftrightarrow> invalid \<or> (\<exists>x. k \<le> x \<and> x < e \<and> strchr ''.01'' (c x))"
      using e(2) by (metis Suc_leD Suc_le_eq le_neq_implies_less not_less_eq_eq order_refl)
    have 2: "\<forall>x. k \<le> x \<and> x < e \<longrightarrow> c x \<noteq> CHR ''#''"
      using e(4) False by (metis Suc_leI le_neq_implies_less)
    show ?thesis
      using lt False e(1,2,3,5) 2 unfolding 1
      by (auto simp: upt_rec[of k n])
  qed
qed

lemma code_text: "i \<le> e \<Longrightarrow> map (\<lambda>k. c_tolower (c (i + k))) [0..<e - i] = line_text c (i, e)"
proof -
  assume "i \<le> e"
  then have "[i..<e] = map (\<lambda>k. k + i) [0..<e - i]"
    using map_add_upt[of i "e - i"] by simp
  then show ?thesis by (simp add: line_text_def comp_def add.commute)
qed

lemma line_run_end_unique:
  assumes "is_line_run c n a b" "a \<le> e" "e \<le> n"
    "\<forall>x. a \<le> x \<and> x < e \<longrightarrow> c x \<noteq> CHR ''#''" "e = n \<or> c e = CHR ''#''"
  shows "b = e"
proof (rule ccontr)
  assume "b \<noteq> e"
  then consider "b < e" | "e < b" by linarith
  then show False
  proof cases
    case 1
    with assms(1,2,4) have "c b \<noteq> CHR ''#''" by (auto simp: is_line_run_def)
    moreover from 1 assms(3) have "b \<noteq> n" by simp
    ultimately show False using assms(1) by (auto simp: is_line_run_def)
  next
    case 2
    with assms(1) have "e \<noteq> n" by (auto simp: is_line_run_def)
    with assms(5) have "c e = CHR ''#''" by simp
    with 2 assms(1,2) show False by (auto simp: is_line_run_def)
  qed
qed

lemma line_scan_spec:
  assumes "n \<le> i \<or> i = 0 \<or> c (i - 1) = CHR ''#'' \<or> c i = CHR ''#''" and "n - i + m \<le> mem"
  shows "\<exists>rs. line_scan c n i (dict, mem, rc) =
                 (dict @ map (line_text c) rs, mem - length rs, rc) \<and>
               m \<le> mem - length rs \<and> length rs \<le> mem \<and> distinct rs \<and>
               set rs = {(a, b). i \<le> a \<and> is_line_run c n a b \<and> line_complete c a b}"
  using assms
proof (induction c n i "(dict, mem, rc)" arbitrary: dict mem rc rule: line_scan.induct)
  case (1 c n i dict mem rc)
  let ?R = "\<lambda>i. {(a, b). i \<le> a \<and> is_line_run c n a b \<and> line_complete c a b}"
  show ?case
  proof (cases "i < n")
    case False
    then have "?R i = {}" by (auto simp: is_line_run_def)
    with False "1.prems"(2) show ?thesis
      by (subst line_scan.simps) (auto intro!: exI[of _ "[]"])
  next
    case True
    show ?thesis
    proof (cases "c i = CHR ''#''")
      case black: True
      have R: "?R i = ?R (i + 1)"
      proof -
        have "\<not> is_line_run c n i b" for b using black by (auto simp: is_line_run_def)
        then show ?thesis by (auto simp: Suc_le_eq) (metis le_neq_implies_less)
      qed
      have b1: "n \<le> i + 1 \<or> i + 1 = 0 \<or> c (i + 1 - 1) = CHR ''#'' \<or> c (i + 1) = CHR ''#''"
        using black by simp
      have m1: "n - (i + 1) + m \<le> mem" using "1.prems"(2) True by linarith
      from "1.hyps"(1)[OF True black b1 m1]
      obtain rs where "line_scan c n (i + 1) (dict, mem, rc) =
                 (dict @ map (line_text c) rs, mem - length rs, rc)"
        "m \<le> mem - length rs" "length rs \<le> mem" "distinct rs" "set rs = ?R (i + 1)"
        by auto
      then show ?thesis
        using True black unfolding R
        by (subst line_scan.simps) auto
    next
      case white: False
      let ?e = "fst (line_end c n [i..<n] False)"
      let ?inv = "snd (line_end c n [i..<n] False)"
      from line_end_spec[of i n c False] True
      have e: "i \<le> ?e" "?e \<le> n" "\<forall>x. i \<le> x \<and> x < ?e \<longrightarrow> c x \<noteq> CHR ''#''"
        "?e = n \<or> c ?e = CHR ''#''"
        and inv: "?inv \<longleftrightarrow> (\<exists>x. i \<le> x \<and> x < ?e \<and> strchr ''.01'' (c x))"
        by auto
      have gt: "i < ?e" using line_end_gt[of i n c False] True white by simp
      have start: "i = 0 \<or> c (i - 1) = CHR ''#''"
        using "1.prems"(1) True white by auto
      have run: "is_line_run c n i ?e"
        using gt e start by (auto simp: is_line_run_def)
      have inner: "\<not> is_line_run c n a b" if "i < a" "a < ?e" for a b
      proof -
        from that have "i \<le> a - 1 \<and> a - 1 < ?e" by linarith
        with e(3) have "c (a - 1) \<noteq> CHR ''#''" by blast
        with that show ?thesis by (auto simp: is_line_run_def)
      qed
      have only: "b = ?e" if "is_line_run c n i b" for b
        using line_run_end_unique[OF that e(1,2,3,4)] .
      have bnd: "n \<le> ?e \<or> ?e = 0 \<or> c (?e - 1) = CHR ''#'' \<or> c ?e = CHR ''#''"
        using e(2,4) by auto
      show ?thesis
      proof (cases ?inv)
        case invalid: True
        then have ncomp: "\<not> line_complete c i ?e"
          using inv by (auto simp: line_complete_def)
        have R: "?R i = ?R ?e"
        proof -
          have "(a, b) \<notin> ?R i" if "i \<le> a" "a < ?e" for a b
          proof (cases "a = i")
            case True
            have "is_line_run c n i b \<Longrightarrow> b = ?e" by (rule only)
            then show ?thesis unfolding True using ncomp by blast
          next
            case False
            with that have "i < a" by simp
            from inner[OF this that(2), of b] show ?thesis by simp
          qed
          then have "(a, b) \<in> ?R i \<longleftrightarrow> (a, b) \<in> ?R ?e" for a b
            using gt by (cases "a < ?e") auto
          then show ?thesis by blast
        qed
        have mE: "n - ?e + m \<le> mem" using "1.prems"(2) gt e(2) by linarith
        from "1.hyps"(2)[OF True white invalid bnd mE]
        obtain rs where "line_scan c n ?e (dict, mem, rc) =
                 (dict @ map (line_text c) rs, mem - length rs, rc)"
          "m \<le> mem - length rs" "length rs \<le> mem" "distinct rs" "set rs = ?R ?e"
          by auto
        then show ?thesis
          using True white invalid unfolding R
          by (subst line_scan.simps) auto
      next
        case valid: False
        then have comp: "line_complete c i ?e"
          using inv by (auto simp: line_complete_def)
        have mem: "mem \<noteq> 0" using "1.prems"(2) True by auto
        have R: "?R i = insert (i, ?e) (?R ?e)"
        proof -
          have "(a, b) \<in> ?R i \<longleftrightarrow> (a, b) = (i, ?e)" if "i \<le> a" "a < ?e" for a b
          proof (cases "a = i")
            case True
            have "is_line_run c n i b \<Longrightarrow> b = ?e" by (rule only)
            moreover have "(i, ?e) \<in> ?R i" using run comp by simp
            ultimately show ?thesis unfolding True by blast
          next
            case False
            with that have "i < a" by simp
            from inner[OF this that(2), of b] False show ?thesis by simp
          qed
          then have "(a, b) \<in> ?R i \<longleftrightarrow> (a, b) \<in> insert (i, ?e) (?R ?e)" for a b
            using gt by (cases "a < ?e") auto
          then show ?thesis by blast
        qed
        have notin: "(i, ?e) \<notin> ?R ?e" using gt by auto
        let ?d = "dict @ [map (\<lambda>k. c_tolower (c (i + k))) [0..<?e - i]]"
        have m': "n - ?e + m \<le> mem - 1" using "1.prems"(2) gt e(2) True by linarith
        from "1.hyps"(3)[OF True white valid mem bnd m']
        obtain rs where rs: "line_scan c n ?e (?d, mem - 1, rc) =
                 (?d @ map (line_text c) rs, mem - 1 - length rs, rc)"
          "m \<le> mem - 1 - length rs" "length rs \<le> mem - 1" "distinct rs" "set rs = ?R ?e"
          by auto
        have "line_scan c n i (dict, mem, rc) = line_scan c n ?e (?d, mem - 1, rc)"
          using True white valid mem by (subst line_scan.simps) simp
        with rs have
          "line_scan c n i (dict, mem, rc) =
             (dict @ map (line_text c) ((i, ?e) # rs), mem - length ((i, ?e) # rs), rc)"
          "m \<le> mem - length ((i, ?e) # rs)" "length ((i, ?e) # rs) \<le> mem"
          "distinct ((i, ?e) # rs)" "set ((i, ?e) # rs) = ?R i"
          using code_text[OF e(1), of c] notin mem unfolding R by auto
        then show ?thesis by blast
      qed
    qed
  qed
qed

lemma lines_scan_spec:
  assumes "k * n + m \<le> mem"
  shows "\<exists>rs. foldl (\<lambda>s l. line_scan (cf l) n 0 s) (dict, mem, rc) [0..<k] =
                 (dict @ map (\<lambda>(l, r). line_text (cf l) r) rs, mem - length rs, rc) \<and>
               m \<le> mem - length rs \<and> length rs \<le> mem \<and> distinct rs \<and>
               set rs = {(l, a, b). l < k \<and> is_line_run (cf l) n a b \<and> line_complete (cf l) a b}"
  using assms
proof (induction k arbitrary: m)
  case 0
  then show ?case by (auto intro!: exI[of _ "[]"])
next
  case (Suc k)
  have "k * n + (n + m) \<le> mem" using Suc.prems by (simp add: algebra_simps)
  from Suc.IH[OF this]
  obtain rs1 where rs1:
    "foldl (\<lambda>s l. line_scan (cf l) n 0 s) (dict, mem, rc) [0..<k] =
       (dict @ map (\<lambda>(l, r). line_text (cf l) r) rs1, mem - length rs1, rc)"
    "n + m \<le> mem - length rs1" "length rs1 \<le> mem" "distinct rs1"
    "set rs1 = {(l, a, b). l < k \<and> is_line_run (cf l) n a b \<and> line_complete (cf l) a b}"
    by blast
  have b0: "n \<le> 0 \<or> (0::nat) = 0 \<or> cf k (0 - 1) = CHR ''#'' \<or> cf k 0 = CHR ''#''" by simp
  have m0: "n - 0 + m \<le> mem - length rs1" using rs1(2) by simp
  from line_scan_spec[OF b0 m0, of "dict @ map (\<lambda>(l, r). line_text (cf l) r) rs1" rc]
  obtain rs2 where rs2:
    "line_scan (cf k) n 0 (dict @ map (\<lambda>(l, r). line_text (cf l) r) rs1, mem - length rs1, rc) =
       ((dict @ map (\<lambda>(l, r). line_text (cf l) r) rs1) @ map (line_text (cf k)) rs2,
        mem - length rs1 - length rs2, rc)"
    "m \<le> mem - length rs1 - length rs2" "length rs2 \<le> mem - length rs1" "distinct rs2"
    "set rs2 = {(a, b). 0 \<le> a \<and> is_line_run (cf k) n a b \<and> line_complete (cf k) a b}"
    by blast
  let ?rs = "rs1 @ map (Pair k) rs2"
  have 1: "foldl (\<lambda>s l. line_scan (cf l) n 0 s) (dict, mem, rc) [0..<Suc k] =
             (dict @ map (\<lambda>(l, r). line_text (cf l) r) ?rs, mem - length ?rs, rc)"
    using rs1(1) rs2(1) by (simp add: comp_def)
  have 2: "m \<le> mem - length ?rs" "length ?rs \<le> mem"
    using rs2(2,3) rs1(3) by simp_all
  have 3: "distinct ?rs"
    using rs1(4,5) rs2(4) by (auto simp: distinct_map inj_on_def)
  have 4: "set ?rs = {(l, a, b). l < Suc k \<and> is_line_run (cf l) n a b \<and> line_complete (cf l) a b}"
    using rs1(5) rs2(5) by (auto simp: less_Suc_eq)
  from 1 2 3 4 show ?case by blast
qed

lemma gcd_adjacent_sorted: "sorted xs \<Longrightarrow> gcd_adjacent xs \<longleftrightarrow> \<not> distinct xs"
proof (induction xs rule: gcd_adjacent.induct)
  case (1 x y zs)
  then have "x \<le> y" "\<forall>z\<in>set zs. y \<le> z" "sorted (y # zs)" by auto
  then have "x \<in> set zs \<Longrightarrow> x = y" by fastforce
  with 1 show ?case by auto
qed simp_all

lemma gcd_adjacent_sort: "gcd_adjacent (sort xs) \<longleftrightarrow> \<not> distinct xs"
  by (simp add: gcd_adjacent_sorted)

lemma not_distinct_map:
  "distinct rs \<Longrightarrow> \<not> distinct (map f rs) \<longleftrightarrow> (\<exists>x\<in>set rs. \<exists>y\<in>set rs. x \<noteq> y \<and> f x = f y)"
  by (auto simp: distinct_map inj_on_def)

lemma gcd_entries_spec:
  assumes "2 * w * h + m \<le> mem"
  shows "\<exists>rsA rsD.
           gcd_entries grid w h mem =
             (map (\<lambda>(l, r). line_text (\<lambda>x. grid ! (l * w + x)) r) rsA @
              map (\<lambda>(l, r). line_text (\<lambda>x. grid ! (x * w + l)) r) rsD,
              mem - length rsA - length rsD, 0) \<and>
           distinct rsA \<and> distinct rsD \<and>
           set rsA = {(l, a, b). l < h \<and> is_line_run (\<lambda>x. grid ! (l * w + x)) w a b \<and>
                                  line_complete (\<lambda>x. grid ! (l * w + x)) a b} \<and>
           set rsD = {(l, a, b). l < w \<and> is_line_run (\<lambda>x. grid ! (x * w + l)) h a b \<and>
                                  line_complete (\<lambda>x. grid ! (x * w + l)) a b}"
proof -
  have mA: "h * w + (w * h + m) \<le> mem" using assms by (simp add: algebra_simps)
  from lines_scan_spec[OF mA, of "\<lambda>l x. grid ! (l * w + x)" "[]" 0]
  obtain rsA where A:
    "foldl (\<lambda>s l. line_scan (\<lambda>x. grid ! (l * w + x)) w 0 s) ([], mem, 0) [0..<h] =
       (map (\<lambda>(l, r). line_text (\<lambda>x. grid ! (l * w + x)) r) rsA, mem - length rsA, 0)"
    "w * h + m \<le> mem - length rsA" "distinct rsA"
    "set rsA = {(l, a, b). l < h \<and> is_line_run (\<lambda>x. grid ! (l * w + x)) w a b \<and>
                            line_complete (\<lambda>x. grid ! (l * w + x)) a b}"
    by auto
  from lines_scan_spec[OF A(2), of "\<lambda>l x. grid ! (x * w + l)"
      "map (\<lambda>(l, r). line_text (\<lambda>x. grid ! (l * w + x)) r) rsA" 0]
  obtain rsD where D:
    "foldl (\<lambda>s l. line_scan (\<lambda>x. grid ! (x * w + l)) h 0 s)
       (map (\<lambda>(l, r). line_text (\<lambda>x. grid ! (l * w + x)) r) rsA, mem - length rsA, 0) [0..<w] =
       (map (\<lambda>(l, r). line_text (\<lambda>x. grid ! (l * w + x)) r) rsA @
        map (\<lambda>(l, r). line_text (\<lambda>x. grid ! (x * w + l)) r) rsD,
        mem - length rsA - length rsD, 0)"
    "distinct rsD"
    "set rsD = {(l, a, b). l < w \<and> is_line_run (\<lambda>x. grid ! (x * w + l)) h a b \<and>
                            line_complete (\<lambda>x. grid ! (x * w + l)) a b}"
    by auto
  have "gcd_entries grid w h mem =
          (map (\<lambda>(l, r). line_text (\<lambda>x. grid ! (l * w + x)) r) rsA @
           map (\<lambda>(l, r). line_text (\<lambda>x. grid ! (x * w + l)) r) rsD,
           mem - length rsA - length rsD, 0)"
    unfolding gcd_entries_def gcd_across_row_line gcd_down_col_line A(1) D(1) ..
  with A(3,4) D(2,3) show ?thesis by blast
qed

lemma strchr_open: "c \<noteq> CHR 0x00 \<Longrightarrow> strchr ''.01'' c \<longleftrightarrow> c \<in> {CHR ''.'', CHR ''0'', CHR ''1''}"
  by (auto simp: strchr_def)

lemma line_complete_open:
  assumes "\<forall>x<n. c x \<noteq> CHR 0x00" "b \<le> n"
  shows "line_complete c a b \<longleftrightarrow>
         (\<forall>x. a \<le> x \<and> x < b \<longrightarrow> c x \<notin> {CHR ''.'', CHR ''0'', CHR ''1''})"
proof -
  have "strchr ''.01'' (c x) \<longleftrightarrow> c x \<in> {CHR ''.'', CHR ''0'', CHR ''1''}" if "x < b" for x
  proof (rule strchr_open)
    from that assms(2) have "x < n" by simp
    with assms(1) show "c x \<noteq> CHR 0x00" by blast
  qed
  then show ?thesis unfolding line_complete_def by blast
qed

lemma across_run_iff:
  assumes "length grid = w * h" "CHR 0x00 \<notin> set grid"
  shows "is_maximal_run grid w h (Across, l, a, b) \<and> run_filled grid w (Across, l, a, b) \<longleftrightarrow>
         l < h \<and> is_line_run (\<lambda>x. grid ! (l * w + x)) w a b \<and>
         line_complete (\<lambda>x. grid ! (l * w + x)) a b"
proof (cases "l < h \<and> b \<le> w")
  case False
  then show ?thesis by (auto simp: is_maximal_run_def is_line_run_def)
next
  case True
  have nz: "\<forall>x<w. grid ! (l * w + x) \<noteq> CHR 0x00"
  proof (intro allI impI)
    fix x assume "x < w"
    from cell_lt[OF this, of l h] True assms(1) have "l * w + x < length grid" by simp
    then have "grid ! (l * w + x) \<in> set grid" by (rule nth_mem)
    with assms(2) show "grid ! (l * w + x) \<noteq> CHR 0x00" by metis
  qed
  have lc: "line_complete (\<lambda>x. grid ! (l * w + x)) a b \<longleftrightarrow>
         (\<forall>x. a \<le> x \<and> x < b \<longrightarrow> grid ! (l * w + x) \<notin> {CHR ''.'', CHR ''0'', CHR ''1''})"
    using line_complete_open[of w "\<lambda>x. grid ! (l * w + x)" b a] nz True by blast
  show ?thesis
    unfolding lc using True
    by (simp add: is_maximal_run_def run_filled_def is_line_run_def run_cell_def)
qed

lemma down_run_iff:
  assumes "length grid = w * h" "CHR 0x00 \<notin> set grid"
  shows "is_maximal_run grid w h (Down, l, a, b) \<and> run_filled grid w (Down, l, a, b) \<longleftrightarrow>
         l < w \<and> is_line_run (\<lambda>x. grid ! (x * w + l)) h a b \<and>
         line_complete (\<lambda>x. grid ! (x * w + l)) a b"
proof (cases "l < w \<and> b \<le> h")
  case False
  then show ?thesis by (auto simp: is_maximal_run_def is_line_run_def)
next
  case True
  have nz: "\<forall>x<h. grid ! (x * w + l) \<noteq> CHR 0x00"
  proof (intro allI impI)
    fix x assume "x < h"
    from cell_lt[of l w x h] this True assms(1) have "x * w + l < length grid" by simp
    then have "grid ! (x * w + l) \<in> set grid" by (rule nth_mem)
    with assms(2) show "grid ! (x * w + l) \<noteq> CHR 0x00" by metis
  qed
  have lc: "line_complete (\<lambda>x. grid ! (x * w + l)) a b \<longleftrightarrow>
         (\<forall>x. a \<le> x \<and> x < b \<longrightarrow> grid ! (x * w + l) \<notin> {CHR ''.'', CHR ''0'', CHR ''1''})"
    using line_complete_open[of h "\<lambda>x. grid ! (x * w + l)" b a] nz True by blast
  show ?thesis
    unfolding lc using True
    by (simp add: is_maximal_run_def run_filled_def is_line_run_def run_cell_def)
qed

lemma run_text_across:
  "run_text c_tolower grid w (Across, p) = line_text (\<lambda>x. grid ! (fst p * w + x)) (snd p)"
  by (cases p) (simp add: run_text_def line_text_def run_cell_def)

lemma run_text_down:
  "run_text c_tolower grid w (Down, p) = line_text (\<lambda>x. grid ! (x * w + fst p)) (snd p)"
  by (cases p) (simp add: run_text_def line_text_def run_cell_def)

lemma gcd_entries_runs:
  assumes "length grid = w * h" "CHR 0x00 \<notin> set grid" "2 * w * h + m \<le> mem"
  shows "\<exists>runs. gcd_entries grid w h mem =
                  (map (run_text c_tolower grid w) runs, mem - length runs, 0) \<and>
                distinct runs \<and>
                set runs = {r. is_maximal_run grid w h r \<and> run_filled grid w r}"
proof -
  from gcd_entries_spec[OF assms(3), of grid]
  obtain rsA rsD where e:
    "gcd_entries grid w h mem =
       (map (\<lambda>(l, r). line_text (\<lambda>x. grid ! (l * w + x)) r) rsA @
        map (\<lambda>(l, r). line_text (\<lambda>x. grid ! (x * w + l)) r) rsD,
        mem - length rsA - length rsD, 0)"
    and d: "distinct rsA" "distinct rsD"
    and A: "set rsA = {(l, a, b). l < h \<and> is_line_run (\<lambda>x. grid ! (l * w + x)) w a b \<and>
                                  line_complete (\<lambda>x. grid ! (l * w + x)) a b}"
    and D: "set rsD = {(l, a, b). l < w \<and> is_line_run (\<lambda>x. grid ! (x * w + l)) h a b \<and>
                                  line_complete (\<lambda>x. grid ! (x * w + l)) a b}"
    by blast
  let ?runs = "map (Pair Across) rsA @ map (Pair Down) rsD"
  have t: "map (run_text c_tolower grid w) ?runs =
           map (\<lambda>(l, r). line_text (\<lambda>x. grid ! (l * w + x)) r) rsA @
           map (\<lambda>(l, r). line_text (\<lambda>x. grid ! (x * w + l)) r) rsD"
    by (simp add: comp_def run_text_across run_text_down split_def)
  have 1: "gcd_entries grid w h mem =
             (map (run_text c_tolower grid w) ?runs, mem - length ?runs, 0)"
    unfolding t e by simp
  have 2: "distinct ?runs"
    using d by (auto simp: distinct_map inj_on_def)
  have 3: "r \<in> set ?runs \<longleftrightarrow> is_maximal_run grid w h r \<and> run_filled grid w r" for r
  proof -
    obtain dd l a b where r: "r = (dd, l, a, b)" by (cases r)
    show ?thesis
    proof (cases dd)
      case Across
      have "r \<in> set ?runs \<longleftrightarrow> (l, a, b) \<in> set rsA"
        unfolding r Across by auto
      then show ?thesis
        unfolding r Across across_run_iff[OF assms(1,2)] A by simp
    next
      case Down
      have "r \<in> set ?runs \<longleftrightarrow> (l, a, b) \<in> set rsD"
        unfolding r Down by auto
      then show ?thesis
        unfolding r Down down_run_iff[OF assms(1,2)] D by simp
    qed
  qed
  from 3 have "set ?runs = {r. is_maximal_run grid w h r \<and> run_filled grid w r}" by blast
  with 1 2 show ?thesis by blast
qed

lemma maximal_run_length: "is_maximal_run grid w h r \<Longrightarrow> 1 \<le> run_length r"
  by (cases r) (auto simp: is_maximal_run_def run_length_def)

lemma gcd_runs:
  assumes "length grid = w * h" "CHR 0x00 \<notin> set grid" "2 * w * h < mem"
  shows "grid_contains_duplicates grid w h mem =
           (if has_duplicate_runs c_tolower 1 grid w h then 1 else 0)"
proof -
  have m: "2 * w * h + 0 \<le> mem - 1" and m0: "mem \<noteq> 0" using assms(3) by simp_all
  from gcd_entries_runs[OF assms(1,2) m]
  obtain runs where e: "gcd_entries grid w h (mem - 1) =
                  (map (run_text c_tolower grid w) runs, mem - 1 - length runs, 0)"
    and d: "distinct runs"
    and s: "set runs = {r. is_maximal_run grid w h r \<and> run_filled grid w r}"
    by blast
  have "\<not> distinct (map (run_text c_tolower grid w) runs) \<longleftrightarrow>
          (\<exists>x\<in>set runs. \<exists>y\<in>set runs. x \<noteq> y \<and>
             run_text c_tolower grid w x = run_text c_tolower grid w y)"
    by (rule not_distinct_map[OF d])
  also have "\<dots> \<longleftrightarrow> has_duplicate_runs c_tolower 1 grid w h"
    unfolding s has_duplicate_runs_def using maximal_run_length[of grid w h] by blast
  finally have "gcd_adjacent (sort (map (run_text c_tolower grid w) runs)) \<longleftrightarrow>
                  has_duplicate_runs c_tolower 1 grid w h"
    by (simp only: gcd_adjacent_sort)
  moreover have "gcd_entries grid w h (mem - Suc 0) =
                  (map (run_text c_tolower grid w) runs, mem - 1 - length runs, 0)"
    using e by simp
  ultimately show ?thesis
    using m0 by (simp add: grid_contains_duplicates_def Let_def)
qed

lemma line_scan_rc:
  "rc \<in> {0, - 3} \<Longrightarrow> snd (snd (line_scan c n i (dict, mem, rc))) \<in> {0, - 3}"
proof (induction c n i "(dict, mem, rc)" arbitrary: dict mem rule: line_scan.induct)
  case (1 c n i dict mem)
  show ?case
    apply (subst line_scan.simps)
    using 1 by (auto simp: Let_def)
qed

lemma lines_scan_rc:
  "snd (snd s) \<in> {0, - 3} \<Longrightarrow>
     snd (snd (foldl (\<lambda>s l. line_scan (cf l) n 0 s) s ls)) \<in> {0, - 3}"
proof (induction ls arbitrary: s)
  case Nil
  then show ?case by simp
next
  case (Cons l ls)
  obtain dict mem rc where s: "s = (dict, mem, rc)" by (cases s)
  with Cons.prems have "rc \<in> {0, - 3}" by simp
  from line_scan_rc[OF this, of "cf l" n 0 dict mem]
  show ?case unfolding foldl_Cons s by (rule Cons.IH)
qed

lemma gcd_values: "grid_contains_duplicates grid w h mem \<in> {0, 1, - 3}"
proof -
  have "snd (snd (gcd_entries grid w h m)) \<in> {0, - 3}" for m
    unfolding gcd_entries_def gcd_across_row_line gcd_down_col_line
    by (intro lines_scan_rc) simp
  then show ?thesis
    by (auto simp: grid_contains_duplicates_def Let_def)
qed

lemma duplicate_runs_mono:
  "has_duplicate_runs (\<lambda>c. c) n grid w h \<Longrightarrow> has_duplicate_runs c_tolower 1 grid w h"
proof -
  assume "has_duplicate_runs (\<lambda>c. c) n grid w h"
  then obtain r1 r2 where r: "r1 \<noteq> r2" "is_maximal_run grid w h r1" "is_maximal_run grid w h r2"
    "run_filled grid w r1" "run_filled grid w r2"
    "run_text (\<lambda>c. c) grid w r1 = run_text (\<lambda>c. c) grid w r2"
    unfolding has_duplicate_runs_def by blast
  have "run_text c_tolower grid w r = map c_tolower (run_text (\<lambda>c. c) grid w r)" for r
    by (cases r) (simp add: run_text_def)
  with r(6) have "run_text c_tolower grid w r1 = run_text c_tolower grid w r2" by simp
  with r(1-5) maximal_run_length[of grid w h] show ?thesis
    unfolding has_duplicate_runs_def by blast
qed

text \<open>
  Claim C5, as the code has it. For a grid of \<open>w * h\<close> characters none of which is the
  NUL character, and with more than \<open>2 * w * h\<close> allocations available (the code asks
  for one array and one string per run), \<^verbatim>\<open>grid_contains_duplicates\<close> returns 1 exactly
  when two different maximal runs of any length, one cell included, neither containing
  \<open>.\<close>, \<open>0\<close> or \<open>1\<close>, have the same text after lower-casing, and 0 exactly when there are
  no two such runs. It returns \<open>-3\<close> only if at most \<open>2 * w * h\<close> allocations are
  available, and it returns no value other than 0, 1 and \<open>-3\<close>.
\<close>

theorem grid_contains_duplicates_spec:
  assumes "length grid = w * h" "CHR 0x00 \<notin> set grid"
  shows "(2 * w * h < mem \<longrightarrow>
            (grid_contains_duplicates grid w h mem = 1 \<longleftrightarrow>
               has_duplicate_runs c_tolower 1 grid w h) \<and>
            (grid_contains_duplicates grid w h mem = 0 \<longleftrightarrow>
               \<not> has_duplicate_runs c_tolower 1 grid w h)) \<and>
         (grid_contains_duplicates grid w h mem = - 3 \<longrightarrow> mem \<le> 2 * w * h) \<and>
         grid_contains_duplicates grid w h mem \<in> {0, 1, - 3}"
proof (intro conjI impI)
  assume "2 * w * h < mem"
  from gcd_runs[OF assms this]
  show "grid_contains_duplicates grid w h mem = 1 \<longleftrightarrow> has_duplicate_runs c_tolower 1 grid w h"
    by simp
next
  assume "2 * w * h < mem"
  from gcd_runs[OF assms this]
  show "grid_contains_duplicates grid w h mem = 0 \<longleftrightarrow> \<not> has_duplicate_runs c_tolower 1 grid w h"
    by simp
next
  assume m3: "grid_contains_duplicates grid w h mem = - 3"
  show "mem \<le> 2 * w * h"
  proof (rule ccontr)
    assume "\<not> mem \<le> 2 * w * h"
    then have "2 * w * h < mem" by simp
    from gcd_runs[OF assms this] m3 show False by (simp split: if_splits)
  qed
next
  show "grid_contains_duplicates grid w h mem \<in> {0, 1, - 3}" by (rule gcd_values)
qed

theorem grid_contains_duplicates_spec_witness:
  "length ''aba'' = 3 * 1 \<and> CHR 0x00 \<notin> set ''aba'' \<and> 2 * 3 * 1 < (7::nat) \<and>
   grid_contains_duplicates ''aba'' 3 1 7 = 1 \<and> has_duplicate_runs c_tolower 1 ''aba'' 3 1 \<and>
   grid_contains_duplicates ''aba'' 3 1 0 = - 3 \<and> (0::nat) \<le> 2 * 3 * 1"
proof -
  have l: "length ''aba'' = 3 * 1" and z: "CHR 0x00 \<notin> set ''aba''" and m: "2 * 3 * 1 < (7::nat)"
    by simp_all
  have g: "grid_contains_duplicates ''aba'' 3 1 7 = 1" by code_simp
  have g0: "grid_contains_duplicates ''aba'' 3 1 0 = - 3"
    by (simp add: grid_contains_duplicates_def)
  from grid_contains_duplicates_spec[OF l z, of 7] m g
  have "has_duplicate_runs c_tolower 1 ''aba'' 3 1" by simp
  with l z m g g0 show ?thesis by simp
qed

lemma aba_long_run:
  "is_maximal_run ''aba'' 3 1 r \<Longrightarrow> 3 \<le> run_length r \<Longrightarrow> r = (Across, 0, 0, 3)"
proof -
  assume a: "is_maximal_run ''aba'' 3 1 r" "3 \<le> run_length r"
  obtain d l x y where r: "r = (d, l, x, y)" by (cases r)
  show ?thesis
  proof (cases d)
    case Across
    with a r show ?thesis by (auto simp: is_maximal_run_def run_length_def)
  next
    case Down
    with a r show ?thesis by (auto simp: is_maximal_run_def run_length_def)
  qed
qed

text \<open>
  Claim C5 as stated fails at the grid of one row \<open>aba\<close>: its only run of three cells or
  more is \<open>aba\<close> itself, so it has no duplicate runs in the sense of the specification,
  but its columns are runs of one cell, two of them \<open>a\<close>, and the code returns 1.
\<close>

theorem short_runs_counterexample:
  "grid_contains_duplicates ''aba'' 3 1 7 = 1 \<and>
   \<not> has_duplicate_runs (\<lambda>c. c) 3 ''aba'' 3 1"
proof -
  have g: "grid_contains_duplicates ''aba'' 3 1 7 = 1" by code_simp
  have "\<not> has_duplicate_runs (\<lambda>c. c) 3 ''aba'' 3 1"
    unfolding has_duplicate_runs_def using aba_long_run by blast
  with g show ?thesis by simp
qed

lemma legal_not_nul: "legal_cell c \<Longrightarrow> c \<noteq> CHR 0x00"
  by (auto simp: legal_cell_def c_isalpha_def is_open_def)

lemma idx2ch_not_nul: "i < 26 \<Longrightarrow> idx2ch i \<noteq> CHR 0x00"
proof -
  assume "i < 26"
  then have "i \<in> set [0..<26]" by simp
  moreover have "list_all (\<lambda>i. idx2ch i \<noteq> CHR 0x00) [0..<26]" by code_simp
  ultimately show ?thesis unfolding list_all_iff by blast
qed

lemma extract_letters_wf:
  "extract_letters cfg info row g = Some g' \<Longrightarrow>
     length g' = length g \<and> (CHR 0x00 \<notin> set g \<longrightarrow> CHR 0x00 \<notin> set g')"
proof (induction row arbitrary: g)
  case Nil
  then show ?case by simp
next
  case (Cons colx cs)
  show ?case
  proof (cases "colx mod 2 = 0 \<and> (colx mod 54) div 2 < 26")
    case False
    with Cons.prems have "extract_letters cfg info cs g = Some g'"
      by (auto simp: Let_def split: option.splits if_splits)
    from Cons.IH[OF this] show ?thesis .
  next
    case True
    with Cons.prems obtain cell where
      e: "extract_letters cfg info cs (g[cell := idx2ch ((colx mod 54) div 2)]) = Some g'"
      by (auto simp: Let_def split: option.splits if_splits)
    have "set (g[cell := idx2ch ((colx mod 54) div 2)]) \<subseteq>
            insert (idx2ch ((colx mod 54) div 2)) (set g)"
      by (rule set_update_subset_insert)
    with idx2ch_not_nul[of "(colx mod 54) div 2"] True
    have "CHR 0x00 \<notin> set g \<Longrightarrow> CHR 0x00 \<notin> set (g[cell := idx2ch ((colx mod 54) div 2)])"
      by (metis insertE subsetD)
    with Cons.IH[OF e] show ?thesis by simp
  qed
qed

lemma decode_solution_wf:
  "decode_solution cfg info sol g = Some g' \<Longrightarrow>
     length g' = length g \<and> (CHR 0x00 \<notin> set g \<longrightarrow> CHR 0x00 \<notin> set g')"
proof (induction sol arbitrary: g)
  case Nil
  then show ?case by simp
next
  case (Cons row sol)
  from Cons.prems consider
      (skip) "decode_solution cfg info sol g = Some g'"
    | (letters) g1 where "extract_letters cfg info row g = Some g1"
        "decode_solution cfg info sol g1 = Some g'"
    by (auto simp: Let_def split: option.splits if_splits)
  then show ?case
  proof cases
    case skip
    from Cons.IH[OF this] show ?thesis .
  next
    case letters
    from extract_letters_wf[OF letters(1)] Cons.IH[OF letters(2)] show ?thesis by simp
  qed
qed

lemma decoded_wf:
  assumes "valid_grid (info_grid info) (info_w info) (info_h info)"
    and "decoded cfg info sol = Some g"
  shows "length g = info_w info * info_h info" "CHR 0x00 \<notin> set g"
proof -
  let ?g0 = "take (info_w info * info_h info) (info_grid info)"
  have l: "length ?g0 = info_w info * info_h info"
    using assms(1) by (simp add: valid_grid_def)
  have "\<forall>c\<in>set (info_grid info). c \<noteq> CHR 0x00"
    using assms(1) legal_not_nul by (auto simp: valid_grid_def list_all_iff)
  then have z: "CHR 0x00 \<notin> set ?g0"
    using l assms(1) by (auto simp: valid_grid_def)
  from decode_solution_wf[of cfg info sol ?g0 g] assms(2) l z
  show "length g = info_w info * info_h info" "CHR 0x00 \<notin> set g"
    by (simp_all add: decoded_def)
qed

lemma duplicate_check_runs:
  assumes "RejectDuplicateWords cfg"
    and "valid_grid (info_grid info) (info_w info) (info_h info)"
    and "2 * info_w info * info_h info + 1 < mem"
    and "decoded cfg info sol = Some g"
  shows "duplicate_check cfg mem info g =
           (if has_duplicate_runs c_tolower 1 g (info_w info) (info_h info) then 1 else 0)"
proof -
  have m: "2 * info_w info * info_h info < mem - 1" using assms(3) by simp
  from gcd_runs[OF decoded_wf[OF assms(2,4)] m] assms(1)
  show ?thesis by (simp add: duplicate_check_def)
qed

text \<open>
  Claim C6. Whenever the callback returns: with duplicate rejection enabled, a valid grid
  and allocations that succeed, a cover whose decoded grid contains duplicate runs (two
  different filled maximal runs of three cells or more with the same text; also in the
  wider sense of the code, runs of any length compared in lower case) is dropped, that
  is the callback returns 0, prints nothing and leaves the count of printed solutions as
  it was; a call that prints raises the count by one and a call that does not print
  leaves it; the callback returns \<open>-99\<close> exactly when it prints and the count reaches
  \<^verbatim>\<open>NumSolutions\<close>, and 1 exactly when it prints and the count has not reached it.
\<close>

theorem callback_contract:
  assumes "print_crossword_result cfg mem info st sol = Some (rc, st', printed)"
  shows "(RejectDuplicateWords cfg \<and>
          valid_grid (info_grid info) (info_w info) (info_h info) \<and>
          2 * info_w info * info_h info + 1 < mem \<and>
          (\<exists>g. decoded cfg info sol = Some g \<and>
               has_duplicate_runs (\<lambda>c. c) 3 g (info_w info) (info_h info)) \<longrightarrow>
            rc = 0 \<and> printed = [] \<and> printed_so_far st' = printed_so_far st) \<and>
         (RejectDuplicateWords cfg \<and>
          valid_grid (info_grid info) (info_w info) (info_h info) \<and>
          2 * info_w info * info_h info + 1 < mem \<and>
          (\<exists>g. decoded cfg info sol = Some g \<and>
               has_duplicate_runs c_tolower 1 g (info_w info) (info_h info)) \<longrightarrow>
            rc = 0 \<and> printed = [] \<and> printed_so_far st' = printed_so_far st) \<and>
         (printed \<noteq> [] \<longrightarrow> printed_so_far st' = printed_so_far st + 1) \<and>
         (printed = [] \<longrightarrow> printed_so_far st' = printed_so_far st) \<and>
         (rc = - 99 \<longleftrightarrow> printed \<noteq> [] \<and> printed_so_far st' = NumSolutions cfg) \<and>
         (rc = 1 \<longleftrightarrow> printed \<noteq> [] \<and> printed_so_far st' \<noteq> NumSolutions cfg)"
proof (cases "passes_gate cfg st")
  case False
  from assms show ?thesis
    unfolding callback_skipped[OF False] by auto
next
  case True
  show ?thesis
  proof (cases "NumSolutions cfg = - 1 \<or> printed_so_far st < NumSolutions cfg")
    case False
    then have "print_crossword_result cfg mem info st sol = None"
      using True by (auto simp: print_crossword_result_def Let_def passes_gate_def)
    with assms show ?thesis by simp
  next
    case N: True
    show ?thesis
    proof (cases "mem = 0")
      case True
      then have "print_crossword_result cfg mem info st sol = Some (- 3, after_gate cfg st, [])"
        using \<open>passes_gate cfg st\<close> N
        by (auto simp: print_crossword_result_def Let_def passes_gate_def after_gate_def)
      with assms True show ?thesis by (auto simp: after_gate_def)
    next
      case False
      then have mem: "0 < mem" by simp
      show ?thesis
      proof (cases "decoded cfg info sol")
        case None
        then have "print_crossword_result cfg mem info st sol = None"
          using \<open>passes_gate cfg st\<close> N mem
          by (auto simp: print_crossword_result_def Let_def passes_gate_def decoded_def)
        with assms show ?thesis by simp
      next
        case (Some g)
        have pg: "printed_so_far (after_gate cfg st) = printed_so_far st"
          by (simp add: after_gate_def)
        have D: "duplicate_check cfg mem info g = 1"
          if "RejectDuplicateWords cfg"
            "valid_grid (info_grid info) (info_w info) (info_h info)"
            "2 * info_w info * info_h info + 1 < mem"
            "has_duplicate_runs c_tolower 1 g (info_w info) (info_h info)"
          using duplicate_check_runs[OF that(1,2,3) Some] that(4) by simp
        have D3: "duplicate_check cfg mem info g = 1"
          if "RejectDuplicateWords cfg"
            "valid_grid (info_grid info) (info_w info) (info_h info)"
            "2 * info_w info * info_h info + 1 < mem"
            "has_duplicate_runs (\<lambda>c. c) 3 g (info_w info) (info_h info)"
          using D[OF that(1,2,3) duplicate_runs_mono[OF that(4)]] .
        have res: "Some (rc, st', printed) =
            (let rc = duplicate_check cfg mem info g in
             if rc < 0 then Some (- 1, after_gate cfg st, [])
             else if rc = 1 then Some (0, after_gate cfg st, [])
             else if rc \<noteq> 0 then None
             else Some (if printed_so_far st + 1 = NumSolutions cfg then - 99 else 1,
                 (after_gate cfg st)\<lparr>printed_so_far := printed_so_far st + 1\<rparr>,
                 [grid_text g (info_w info) (info_h info)]))"
          using assms unfolding callback_considered[OF \<open>passes_gate cfg st\<close> N mem Some] by simp
        have tail: "(printed \<noteq> [] \<longrightarrow> printed_so_far st' = printed_so_far st + 1) \<and>
         (printed = [] \<longrightarrow> printed_so_far st' = printed_so_far st) \<and>
         (rc = - 99 \<longleftrightarrow> printed \<noteq> [] \<and> printed_so_far st' = NumSolutions cfg) \<and>
         (rc = 1 \<longleftrightarrow> printed \<noteq> [] \<and> printed_so_far st' \<noteq> NumSolutions cfg)"
          using res by (auto simp: Let_def pg split: if_splits)
        have drop: "rc = 0 \<and> printed = [] \<and> printed_so_far st' = printed_so_far st"
          if "duplicate_check cfg mem info g = 1"
          using res that by (simp add: pg)
        show ?thesis
          using tail drop D D3 Some by auto
      qed
    qed
  qed
qed

lemma not_naive_flags:
  "UseNaiveMethod every_second_flags = UseNaiveMethod default_flags"
  "UseNaiveMethod first_only_flags = UseNaiveMethod default_flags"
  by (simp_all add: every_second_flags_def first_only_flags_def)

lemma tap_info_dims: "info_w tap_info = 3" "info_h tap_info = 3"
  by (simp_all add: tap_info_def)

lemma reject_flags:
  "RejectDuplicateWords default_flags" "RejectDuplicateWords every_second_flags"
  "RejectDuplicateWords first_only_flags"
  by (simp_all add: default_flags_def every_second_flags_def first_only_flags_def)

lemma tap_tap_rejected:
  assumes "UseNaiveMethod cfg = UseNaiveMethod default_flags" "RejectDuplicateWords cfg"
  shows "rejected cfg 100 tap_info cover_tap_tap" "\<not> acceptable cfg 100 tap_info cover_tap_tap"
  using assms
  by (simp_all add: rejected_def acceptable_def decoded_flags[OF assms(1)] decoded_tap_tap
        duplicate_check_def tap_info_dims gcd_tap_tap)

lemma tap_tat_acceptable:
  assumes "UseNaiveMethod cfg = UseNaiveMethod default_flags" "RejectDuplicateWords cfg"
  shows "acceptable cfg 100 tap_info cover_tap_tat"
    "solution_text cfg tap_info cover_tap_tat = grid_text ''taponetat'' 3 3"
  using assms
  by (simp_all add: acceptable_def decoded_flags[OF assms(1)] decoded_tap_tat
        duplicate_check_def tap_info_dims gcd_tap_tat solution_text_def)

lemma all_in_range: "(\<forall>x. a \<le> x \<and> x < b \<longrightarrow> P x) \<longleftrightarrow> list_all P [a..<b]"
  by (auto simp: list_all_iff)

lemma tap_tap_duplicate_runs: "has_duplicate_runs (\<lambda>c. c) 3 ''taponetap'' 3 3"
proof -
  have 1: "is_maximal_run ''taponetap'' 3 3 (Across, 0, 0, 3)"
    and 2: "is_maximal_run ''taponetap'' 3 3 (Across, 2, 0, 3)"
    by (simp_all add: is_maximal_run_def run_cell_def all_in_range upt_rec)
  have 3: "run_filled ''taponetap'' 3 (Across, 0, 0, 3)"
    and 4: "run_filled ''taponetap'' 3 (Across, 2, 0, 3)"
    by (simp_all add: run_filled_def run_cell_def all_in_range upt_rec)
  have 5: "run_text (\<lambda>c. c) ''taponetap'' 3 (Across, 0, 0, 3) =
           run_text (\<lambda>c. c) ''taponetap'' 3 (Across, 2, 0, 3)"
    by (simp add: run_text_def run_cell_def upt_rec)
  have 6: "(Across, 0::nat, 0::nat, 3::nat) \<noteq> (Across, 2, 0, 3)" by simp
  have 7: "3 \<le> run_length (Across, 0, 0, 3)" "3 \<le> run_length (Across, 2, 0, 3)"
    by (simp_all add: run_length_def)
  show ?thesis
    unfolding has_duplicate_runs_def
    using 1 2 3 4 5 6 7 by blast
qed

theorem callback_contract_witness:
  "print_crossword_result default_flags 100 tap_info initial_counters cover_tap_tap
     = Some (0, initial_counters, []) \<and>
   RejectDuplicateWords default_flags \<and>
   valid_grid (info_grid tap_info) (info_w tap_info) (info_h tap_info) \<and>
   2 * info_w tap_info * info_h tap_info + 1 < (100::nat) \<and>
   decoded default_flags tap_info cover_tap_tap = Some ''taponetap'' \<and>
   has_duplicate_runs (\<lambda>c. c) 3 ''taponetap'' (info_w tap_info) (info_h tap_info) \<and>
   has_duplicate_runs c_tolower 1 ''taponetap'' (info_w tap_info) (info_h tap_info) \<and>
   print_crossword_result first_only_flags 100 tap_info initial_counters cover_tap_tat
     = Some (- 99, \<lparr>printed_so_far = 1, skipped_so_far = 0\<rparr>, [grid_text ''taponetat'' 3 3]) \<and>
   NumSolutions first_only_flags = 1"
proof -
  have g1: "passes_gate default_flags initial_counters"
    and g2: "passes_gate first_only_flags initial_counters"
    by (simp_all add: passes_gate_def default_flags_def first_only_flags_def)
  have n1: "NumSolutions default_flags = - 1 \<or> printed_so_far initial_counters < NumSolutions default_flags"
    and n2: "NumSolutions first_only_flags = - 1 \<or> printed_so_far initial_counters < NumSolutions first_only_flags"
    by (simp_all add: default_flags_def first_only_flags_def initial_counters_def)
  have d2: "decoded first_only_flags tap_info cover_tap_tat = Some ''taponetat''"
    by (simp add: decoded_flags[OF not_naive_flags(2)] decoded_tap_tat)
  have c1: "print_crossword_result default_flags 100 tap_info initial_counters cover_tap_tap
              = Some (0, initial_counters, [])"
    unfolding callback_considered[OF g1 n1 _ decoded_tap_tap, of 100, simplified]
    by (simp add: duplicate_check_def reject_flags tap_info_dims gcd_tap_tap after_gate_def
          default_flags_def)
  have c2: "print_crossword_result first_only_flags 100 tap_info initial_counters cover_tap_tat
     = Some (- 99, \<lparr>printed_so_far = 1, skipped_so_far = 0\<rparr>, [grid_text ''taponetat'' 3 3])"
    unfolding callback_considered[OF g2 n2 _ d2, of 100, simplified]
    by (simp add: duplicate_check_def reject_flags tap_info_dims gcd_tap_tat after_gate_def
          first_only_flags_def default_flags_def initial_counters_def)
  have v: "valid_grid (info_grid tap_info) (info_w tap_info) (info_h tap_info)"
    by (simp add: tap_info_def valid_grid_def legal_cell_def is_open_def c_isalpha_def)
  have m: "2 * info_w tap_info * info_h tap_info + 1 < (100::nat)"
    by (simp add: tap_info_dims)
  have h3: "has_duplicate_runs (\<lambda>c. c) 3 ''taponetap'' (info_w tap_info) (info_h tap_info)"
    by (simp add: tap_info_dims tap_tap_duplicate_runs)
  note h1 = duplicate_runs_mono[OF h3]
  from callback_contract[OF c1] callback_contract[OF c2]
  show ?thesis
    using c1 c2 v m h3 h1 decoded_tap_tap reject_flags(1) by (simp add: first_only_flags_def)
qed

text \<open>
  Claim C7, as the code has it. With \<^verbatim>\<open>PrintEveryNthSolution\<close> \<open>= K \<ge> 1\<close>, started from
  fresh counters on covers none of which fails an assertion or an allocation, the
  search prints exactly the acceptable ones among the covers at positions \<open>K\<close>, \<open>2 K\<close>,
  \<open>3 K\<close>, ... of the sequence of all covers, up to the maximum number of solutions: a
  cover that the duplicate filter rejects advances the cycle like any other.
\<close>

theorem every_nth_policy:
  assumes "1 \<le> PrintEveryNthSolution cfg"
    and "NumSolutions cfg = - 1 \<or> 1 \<le> NumSolutions cfg"
    and "0 < mem"
    and "\<forall>sol\<in>set sols. acceptable cfg mem info sol \<or> rejected cfg mem info sol"
  shows "\<exists>r st'. dance_solve_callbacks cfg mem info sols initial_counters 0 [] =
           Some (r, st',
             limited cfg 0
               (map (solution_text cfg info)
                  (filter (acceptable cfg mem info)
                     (every_nth (nat (PrintEveryNthSolution cfg)) sols))))"
proof -
  have s: "0 \<le> skipped_so_far initial_counters"
    "skipped_so_far initial_counters < PrintEveryNthSolution cfg"
    and p: "0 \<le> printed_so_far initial_counters"
    "NumSolutions cfg = - 1 \<or> printed_so_far initial_counters < NumSolutions cfg"
    using assms(1,2) by (auto simp: initial_counters_def)
  have e: "every_nth (nat (PrintEveryNthSolution cfg)) sols =
           pick_every (nat (PrintEveryNthSolution cfg)) 0 sols"
    using assms(1) by (intro every_nth_pick) simp
  from run_output_general[OF assms(1,3,4) s p, of 0 "[]"]
  show ?thesis
    unfolding e by (auto simp: selected_def initial_counters_def)
qed

theorem every_nth_policy_witness:
  "(1::int) \<le> PrintEveryNthSolution every_second_flags \<and>
   NumSolutions every_second_flags = - 1 \<and>
   rejected every_second_flags 100 tap_info cover_tap_tap \<and>
   acceptable every_second_flags 100 tap_info cover_tap_tat \<and>
   (\<exists>r st'. dance_solve_callbacks every_second_flags 100 tap_info
              [cover_tap_tat, cover_tap_tap, cover_tap_tat, cover_tap_tat] initial_counters 0 [] =
           Some (r, st', [grid_text ''taponetat'' 3 3]))"
proof -
  let ?sols = "[cover_tap_tat, cover_tap_tap, cover_tap_tat, cover_tap_tat]"
  have K: "1 \<le> PrintEveryNthSolution every_second_flags"
    and K2: "nat (PrintEveryNthSolution every_second_flags) = 2"
    and N: "NumSolutions every_second_flags = - 1"
    by (simp_all add: every_second_flags_def default_flags_def)
  note r = tap_tap_rejected[OF not_naive_flags(1) reject_flags(2)]
  note a = tap_tat_acceptable[OF not_naive_flags(1) reject_flags(2)]
  have ok: "\<forall>sol\<in>set ?sols. acceptable every_second_flags 100 tap_info sol \<or>
              rejected every_second_flags 100 tap_info sol"
    using r a by simp
  have e: "every_nth 2 ?sols = [cover_tap_tap, cover_tap_tat]"
    by (simp add: every_nth_def upt_rec)
  from every_nth_policy[OF K _ _ ok] N
  have "\<exists>r st'. dance_solve_callbacks every_second_flags 100 tap_info ?sols initial_counters 0 [] =
           Some (r, st', [grid_text ''taponetat'' 3 3])"
    unfolding K2 e by (simp add: limited_def r a)
  then show ?thesis using K N r a by simp
qed

text \<open>
  Claim C7 as stated fails for \<open>K = 2\<close> on a rejected cover followed by an acceptable one:
  the code prints the second cover; the every-second choice among the acceptable covers
  alone is empty.
\<close>

theorem every_nth_counts_rejected_counterexample:
  "dance_solve_callbacks every_second_flags 100 tap_info [cover_tap_tap, cover_tap_tat]
     initial_counters 0 []
     = Some (1, \<lparr>printed_so_far = 1, skipped_so_far = 0\<rparr>, [grid_text ''taponetat'' 3 3]) \<and>
   map (solution_text every_second_flags tap_info)
     (every_nth 2 (filter (acceptable every_second_flags 100 tap_info)
                     [cover_tap_tap, cover_tap_tat])) = []"
proof -
  note r = tap_tap_rejected[OF not_naive_flags(1) reject_flags(2)]
  note a = tap_tat_acceptable[OF not_naive_flags(1) reject_flags(2)]
  have g1: "\<not> passes_gate every_second_flags initial_counters"
    by (simp add: passes_gate_def every_second_flags_def initial_counters_def)
  let ?st = "initial_counters\<lparr>skipped_so_far := skipped_so_far initial_counters + 1\<rparr>"
  have g2: "passes_gate every_second_flags ?st"
    by (simp add: passes_gate_def every_second_flags_def initial_counters_def)
  have n2: "NumSolutions every_second_flags = - 1 \<or> printed_so_far ?st < NumSolutions every_second_flags"
    by (simp add: every_second_flags_def default_flags_def)
  have d: "decoded every_second_flags tap_info cover_tap_tat = Some ''taponetat''"
    by (simp add: decoded_flags[OF not_naive_flags(1)] decoded_tap_tat)
  have c2: "print_crossword_result every_second_flags 100 tap_info ?st cover_tap_tat =
              Some (1, \<lparr>printed_so_far = 1, skipped_so_far = 0\<rparr>, [grid_text ''taponetat'' 3 3])"
    unfolding callback_considered[OF g2 n2 _ d, of 100, simplified]
    by (simp add: duplicate_check_def reject_flags tap_info_dims gcd_tap_tat after_gate_def
          every_second_flags_def default_flags_def initial_counters_def)
  have run: "dance_solve_callbacks every_second_flags 100 tap_info [cover_tap_tap, cover_tap_tat]
     initial_counters 0 []
     = Some (1, \<lparr>printed_so_far = 1, skipped_so_far = 0\<rparr>, [grid_text ''taponetat'' 3 3])"
    by (simp add: callback_skipped[OF g1] c2)
  have "every_nth 2 [cover_tap_tat] = []"
    by (simp add: every_nth_def)
  then show ?thesis using run r a by simp
qed

lemma callback_default_independent:
  assumes "PrintEveryNthSolution cfg = 1" "NumSolutions cfg = - 1"
    and "0 \<le> printed_so_far st" "0 \<le> printed_so_far st2"
  shows "(print_crossword_result cfg mem info st sol = None \<longleftrightarrow>
          print_crossword_result cfg mem info st2 sol = None) \<and>
         (\<forall>rc st' out. print_crossword_result cfg mem info st sol = Some (rc, st', out) \<longrightarrow>
            0 \<le> printed_so_far st' \<and>
            (\<exists>st2'. print_crossword_result cfg mem info st2 sol = Some (rc, st2', out) \<and>
                     0 \<le> printed_so_far st2'))"
  using assms
  by (auto simp: print_crossword_result_def Let_def split: option.splits if_splits)

lemma run_default_independent:
  assumes "PrintEveryNthSolution cfg = 1" "NumSolutions cfg = - 1"
  shows "0 \<le> printed_so_far st \<Longrightarrow> 0 \<le> printed_so_far st2 \<Longrightarrow>
         emitted (dance_solve_callbacks cfg mem info sols st count out) =
         emitted (dance_solve_callbacks cfg mem info sols st2 count out)"
proof (induction sols arbitrary: st st2 count out)
  case Nil
  show ?case by (simp add: emitted_def)
next
  case (Cons sol sols)
  note ind = callback_default_independent[OF assms Cons.prems, of mem info sol]
  show ?case
  proof (cases "print_crossword_result cfg mem info st sol")
    case None
    with ind have "print_crossword_result cfg mem info st2 sol = None" by simp
    with None show ?thesis by (simp add: emitted_def)
  next
    case (Some res)
    obtain rc st' printed where res: "res = (rc, st', printed)" by (cases res)
    with Some ind obtain st2' where
      a: "0 \<le> printed_so_far st'" "0 \<le> printed_so_far st2'"
         "print_crossword_result cfg mem info st2 sol = Some (rc, st2', printed)"
      by blast
    show ?thesis
      using Some res a(3) Cons.IH[OF a(1,2)] by (simp add: emitted_def)
  qed
qed

lemma gcd_cat: "grid_contains_duplicates ''cat'' 3 1 99 = 0"
  by code_simp

lemma cat_decoded: "decoded cfg cat_info [] = Some ''cat''"
  by (simp add: decoded_def cat_info_def)

lemma cat_check: "duplicate_check cfg 100 cat_info ''cat'' = 0"
  using gcd_cat by (simp add: duplicate_check_def cat_info_def)

lemma cat_printed:
  assumes "passes_gate cfg st" "NumSolutions cfg = - 1 \<or> printed_so_far st < NumSolutions cfg"
  shows "\<exists>rc st'. dance_solve_callbacks cfg 100 cat_info [[]] st 0 [] =
                     Some (rc, st', [grid_text ''cat'' 3 1])"
proof -
  have "print_crossword_result cfg 100 cat_info st [] =
          Some (if printed_so_far st + 1 = NumSolutions cfg then - 99 else 1,
                (after_gate cfg st)\<lparr>printed_so_far := printed_so_far st + 1\<rparr>,
                [grid_text ''cat'' 3 1])"
    using callback_considered[OF assms _ cat_decoded, of 100]
    by (simp add: cat_check) (simp add: cat_info_def)
  then show ?thesis by simp
qed

lemma cat_skipped:
  assumes "\<not> passes_gate cfg st"
  shows "dance_solve_callbacks cfg 100 cat_info [[]] st 0 [] =
           Some (0, st\<lparr>skipped_so_far := skipped_so_far st + 1\<rparr>, [])"
  by (simp add: callback_skipped[OF assms])

lemma cat_aborted:
  assumes "passes_gate cfg st" "\<not> (NumSolutions cfg = - 1 \<or> printed_so_far st < NumSolutions cfg)"
  shows "dance_solve_callbacks cfg 100 cat_info [[]] st 0 [] = None"
proof -
  have "print_crossword_result cfg 100 cat_info st [] = None"
    using assms by (auto simp: print_crossword_result_def Let_def passes_gate_def)
  then show ?thesis by simp
qed

lemma counters_matter:
  assumes "1 \<le> PrintEveryNthSolution cfg" "NumSolutions cfg = - 1 \<or> 1 \<le> NumSolutions cfg"
    and "\<not> (PrintEveryNthSolution cfg = 1 \<and> NumSolutions cfg = - 1)"
  shows "\<exists>st. 0 \<le> printed_so_far st \<and> 0 \<le> skipped_so_far st \<and>
              emitted (dance_solve_callbacks cfg 100 cat_info [[]] st 0 []) \<noteq>
              emitted (dance_solve_callbacks cfg 100 cat_info [[]] initial_counters 0 [])"
proof (cases "PrintEveryNthSolution cfg = 1")
  case False
  let ?st = "\<lparr>printed_so_far = 0, skipped_so_far = PrintEveryNthSolution cfg - 1\<rparr>"
  have g: "passes_gate cfg ?st" by (simp add: passes_gate_def)
  have n: "NumSolutions cfg = - 1 \<or> printed_so_far ?st < NumSolutions cfg"
    using assms(2) by auto
  from cat_printed[OF g n] obtain rc st' where
    a: "dance_solve_callbacks cfg 100 cat_info [[]] ?st 0 [] = Some (rc, st', [grid_text ''cat'' 3 1])"
    by blast
  have "\<not> passes_gate cfg initial_counters"
    using False assms(1) by (simp add: passes_gate_def initial_counters_def)
  note b = cat_skipped[OF this]
  have "emitted (dance_solve_callbacks cfg 100 cat_info [[]] ?st 0 []) \<noteq>
        emitted (dance_solve_callbacks cfg 100 cat_info [[]] initial_counters 0 [])"
    unfolding a b by (simp add: emitted_def)
  moreover have "0 \<le> printed_so_far ?st \<and> 0 \<le> skipped_so_far ?st"
    using assms(1) by simp
  ultimately show ?thesis by blast
next
  case True
  with assms(2,3) have N: "1 \<le> NumSolutions cfg" by auto
  let ?st = "\<lparr>printed_so_far = NumSolutions cfg, skipped_so_far = 0\<rparr>"
  have g: "passes_gate cfg ?st" using True by (simp add: passes_gate_def)
  have n: "\<not> (NumSolutions cfg = - 1 \<or> printed_so_far ?st < NumSolutions cfg)"
    using N by simp
  note a = cat_aborted[OF g n]
  have g0: "passes_gate cfg initial_counters" using True by (simp add: passes_gate_def)
  have n0: "NumSolutions cfg = - 1 \<or> printed_so_far initial_counters < NumSolutions cfg"
    using N by (simp add: initial_counters_def)
  from cat_printed[OF g0 n0] obtain rc st' where
    b: "dance_solve_callbacks cfg 100 cat_info [[]] initial_counters 0 [] =
          Some (rc, st', [grid_text ''cat'' 3 1])"
    by blast
  have "emitted (dance_solve_callbacks cfg 100 cat_info [[]] ?st 0 []) \<noteq>
        emitted (dance_solve_callbacks cfg 100 cat_info [[]] initial_counters 0 [])"
    unfolding a b by (simp add: emitted_def)
  moreover have "0 \<le> printed_so_far ?st \<and> 0 \<le> skipped_so_far ?st"
    using N by simp
  ultimately show ?thesis by blast
qed

text \<open>
  Claim C9, as the code has it. The counters are static variables that outlive a search.
  For every setting of the options that \<^verbatim>\<open>main\<close> accepts (\<^verbatim>\<open>PrintEveryNthSolution\<close> at
  least 1, \<^verbatim>\<open>NumSolutions\<close> \<open>-1\<close> or at least 1): the value a search returns and the
  grids it prints are the same from whatever counters an earlier search in the same
  process left behind as from fresh counters, for every grid and every sequence of
  covers, exactly when the options are the default ones, print every solution and no
  maximum. With any other setting some search gives another result from left-over
  counters than from fresh ones.
\<close>

theorem counters_ignored_iff_default:
  assumes "1 \<le> PrintEveryNthSolution cfg" "NumSolutions cfg = - 1 \<or> 1 \<le> NumSolutions cfg"
  shows "(\<forall>mem info sols st. 0 \<le> printed_so_far st \<and> 0 \<le> skipped_so_far st \<longrightarrow>
            emitted (dance_solve_callbacks cfg mem info sols st 0 []) =
            emitted (dance_solve_callbacks cfg mem info sols initial_counters 0 [])) \<longleftrightarrow>
         PrintEveryNthSolution cfg = 1 \<and> NumSolutions cfg = - 1"
proof
  assume ind: "\<forall>mem info sols st. 0 \<le> printed_so_far st \<and> 0 \<le> skipped_so_far st \<longrightarrow>
            emitted (dance_solve_callbacks cfg mem info sols st 0 []) =
            emitted (dance_solve_callbacks cfg mem info sols initial_counters 0 [])"
  show "PrintEveryNthSolution cfg = 1 \<and> NumSolutions cfg = - 1"
  proof (rule ccontr)
    assume "\<not> (PrintEveryNthSolution cfg = 1 \<and> NumSolutions cfg = - 1)"
    from counters_matter[OF assms this] obtain st :: counters where
      "0 \<le> printed_so_far st \<and> 0 \<le> skipped_so_far st"
      "emitted (dance_solve_callbacks cfg 100 cat_info [[]] st 0 []) \<noteq>
       emitted (dance_solve_callbacks cfg 100 cat_info [[]] initial_counters 0 [])"
      by blast
    with ind show False by blast
  qed
next
  assume d: "PrintEveryNthSolution cfg = 1 \<and> NumSolutions cfg = - 1"
  show "\<forall>mem info sols st. 0 \<le> printed_so_far st \<and> 0 \<le> skipped_so_far st \<longrightarrow>
            emitted (dance_solve_callbacks cfg mem info sols st 0 []) =
            emitted (dance_solve_callbacks cfg mem info sols initial_counters 0 [])"
  proof (intro allI impI)
    fix mem info sols and st :: counters
    assume "0 \<le> printed_so_far st \<and> 0 \<le> skipped_so_far st"
    then have p: "0 \<le> printed_so_far st" by simp
    have p0: "0 \<le> printed_so_far initial_counters" by (simp add: initial_counters_def)
    from d have K: "PrintEveryNthSolution cfg = 1" and N: "NumSolutions cfg = - 1" by simp_all
    show "emitted (dance_solve_callbacks cfg mem info sols st 0 []) =
          emitted (dance_solve_callbacks cfg mem info sols initial_counters 0 [])"
      by (rule run_default_independent[OF K N p p0])
  qed
qed

theorem counters_ignored_iff_default_witness:
  "(1::int) \<le> PrintEveryNthSolution default_flags \<and> NumSolutions default_flags = - 1 \<and>
   emitted (dance_solve_callbacks default_flags 100 tap_info [cover_tap_tap, cover_tap_tat]
              \<lparr>printed_so_far = 5, skipped_so_far = 3\<rparr> 0 []) =
   emitted (dance_solve_callbacks default_flags 100 tap_info [cover_tap_tap, cover_tap_tat]
              initial_counters 0 []) \<and>
   (1::int) \<le> PrintEveryNthSolution every_second_flags \<and>
   NumSolutions every_second_flags = - 1 \<and>
   \<not> (\<forall>mem info sols st. 0 \<le> printed_so_far st \<and> 0 \<le> skipped_so_far st \<longrightarrow>
            emitted (dance_solve_callbacks every_second_flags mem info sols st 0 []) =
            emitted (dance_solve_callbacks every_second_flags mem info sols initial_counters 0 []))"
proof -
  have K: "1 \<le> PrintEveryNthSolution default_flags" "PrintEveryNthSolution default_flags = 1"
    and N: "NumSolutions default_flags = - 1"
    by (simp_all add: default_flags_def)
  have K2: "1 \<le> PrintEveryNthSolution every_second_flags"
    "PrintEveryNthSolution every_second_flags \<noteq> 1"
    and N2: "NumSolutions every_second_flags = - 1"
    by (simp_all add: every_second_flags_def default_flags_def)
  have p: "0 \<le> printed_so_far \<lparr>printed_so_far = 5, skipped_so_far = 3\<rparr> \<and>
           0 \<le> skipped_so_far \<lparr>printed_so_far = 5, skipped_so_far = 3\<rparr>" by simp
  have a: "emitted (dance_solve_callbacks default_flags 100 tap_info [cover_tap_tap, cover_tap_tat]
              \<lparr>printed_so_far = 5, skipped_so_far = 3\<rparr> 0 []) =
   emitted (dance_solve_callbacks default_flags 100 tap_info [cover_tap_tap, cover_tap_tat]
              initial_counters 0 [])"
    using counters_ignored_iff_default[of default_flags] K N p by blast
  have b: "\<not> (\<forall>mem info sols st. 0 \<le> printed_so_far st \<and> 0 \<le> skipped_so_far st \<longrightarrow>
            emitted (dance_solve_callbacks every_second_flags mem info sols st 0 []) =
            emitted (dance_solve_callbacks every_second_flags mem info sols initial_counters 0 []))"
    using counters_ignored_iff_default[of every_second_flags] K2 N2 by blast
  from K(1) N a K2(1) N2 b show ?thesis by (intro conjI)
qed

text \<open>
  Claim C9 as stated fails with \<open>K = 2\<close>: a search over one acceptable cover prints nothing
  from fresh counters and leaves \<^verbatim>\<open>skipped_so_far = 1\<close>; the same search run again in the
  same process starts from these counters and prints the cover. It fails with a maximum
  of one solution too: the search prints the cover and stops with \<open>-99\<close>, leaving
  \<^verbatim>\<open>printed_so_far = 1\<close>; run again from these counters, it fails the assertion
  \<^verbatim>\<open>printed_so_far < NumSolutions\<close> of the callback.
\<close>

theorem static_counters_counterexample:
  "dance_solve_callbacks every_second_flags 100 tap_info [cover_tap_tat] initial_counters 0 []
     = Some (0, \<lparr>printed_so_far = 0, skipped_so_far = 1\<rparr>, []) \<and>
   dance_solve_callbacks every_second_flags 100 tap_info [cover_tap_tat]
     \<lparr>printed_so_far = 0, skipped_so_far = 1\<rparr> 0 []
     = Some (1, \<lparr>printed_so_far = 1, skipped_so_far = 0\<rparr>, [grid_text ''taponetat'' 3 3]) \<and>
   dance_solve_callbacks first_only_flags 100 tap_info [cover_tap_tat] initial_counters 0 []
     = Some (- 99, \<lparr>printed_so_far = 1, skipped_so_far = 0\<rparr>, [grid_text ''taponetat'' 3 3]) \<and>
   dance_solve_callbacks first_only_flags 100 tap_info [cover_tap_tat]
     \<lparr>printed_so_far = 1, skipped_so_far = 0\<rparr> 0 []
     = None"
proof -
  have g1: "\<not> passes_gate every_second_flags initial_counters"
    by (simp add: passes_gate_def every_second_flags_def initial_counters_def)
  let ?st = "\<lparr>printed_so_far = 0, skipped_so_far = 1\<rparr>"
  have g2: "passes_gate every_second_flags ?st"
    by (simp add: passes_gate_def every_second_flags_def)
  have n2: "NumSolutions every_second_flags = - 1 \<or> printed_so_far ?st < NumSolutions every_second_flags"
    by (simp add: every_second_flags_def default_flags_def)
  have d: "decoded every_second_flags tap_info cover_tap_tat = Some ''taponetat''"
    by (simp add: decoded_flags[OF not_naive_flags(1)] decoded_tap_tat)
  have c2: "print_crossword_result every_second_flags 100 tap_info ?st cover_tap_tat =
              Some (1, \<lparr>printed_so_far = 1, skipped_so_far = 0\<rparr>, [grid_text ''taponetat'' 3 3])"
    unfolding callback_considered[OF g2 n2 _ d, of 100, simplified]
    by (simp add: duplicate_check_def reject_flags tap_info_dims gcd_tap_tat after_gate_def
          every_second_flags_def default_flags_def)
  have a: "dance_solve_callbacks every_second_flags 100 tap_info [cover_tap_tat] initial_counters 0 []
     = Some (0, \<lparr>printed_so_far = 0, skipped_so_far = 1\<rparr>, [])"
    by (simp add: callback_skipped[OF g1]) (simp add: initial_counters_def)
  have b: "dance_solve_callbacks every_second_flags 100 tap_info [cover_tap_tat] ?st 0 []
     = Some (1, \<lparr>printed_so_far = 1, skipped_so_far = 0\<rparr>, [grid_text ''taponetat'' 3 3])"
    by (simp add: c2)
  have g3: "passes_gate first_only_flags initial_counters"
    by (simp add: passes_gate_def first_only_flags_def default_flags_def)
  have n3: "NumSolutions first_only_flags = - 1 \<or>
            printed_so_far initial_counters < NumSolutions first_only_flags"
    by (simp add: first_only_flags_def initial_counters_def)
  have d3: "decoded first_only_flags tap_info cover_tap_tat = Some ''taponetat''"
    by (simp add: decoded_flags[OF not_naive_flags(2)] decoded_tap_tat)
  have c3: "print_crossword_result first_only_flags 100 tap_info initial_counters cover_tap_tat
     = Some (- 99, \<lparr>printed_so_far = 1, skipped_so_far = 0\<rparr>, [grid_text ''taponetat'' 3 3])"
    unfolding callback_considered[OF g3 n3 _ d3, of 100, simplified]
    by (simp add: duplicate_check_def reject_flags tap_info_dims gcd_tap_tat after_gate_def
          first_only_flags_def default_flags_def initial_counters_def)
  have c: "dance_solve_callbacks first_only_flags 100 tap_info [cover_tap_tat] initial_counters 0 []
     = Some (- 99, \<lparr>printed_so_far = 1, skipped_so_far = 0\<rparr>, [grid_text ''taponetat'' 3 3])"
    by (simp add: c3)
  have "print_crossword_result first_only_flags 100 tap_info
          \<lparr>printed_so_far = 1, skipped_so_far = 0\<rparr> cover_tap_tat = None"
    by (simp add: print_crossword_result_def first_only_flags_def default_flags_def Let_def)
  then have e: "dance_solve_callbacks first_only_flags 100 tap_info [cover_tap_tat]
     \<lparr>printed_so_far = 1, skipped_so_far = 0\<rparr> 0 [] = None"
    by simp
  from a b c e show ?thesis by (intro conjI)
qed

end
